theory Spec2Isabelle
  imports Complex_Main "HOL-Library.Word"
begin

section \<open>Values of the host language\<close>

text \<open>
  The streams of \<^verbatim>\<open>src/index.ts\<close> never look inside a \<^verbatim>\<open>Buffer\<close>: a buffer is a list
  of bytes. An \<^verbatim>\<open>Error\<close> object is identified by its message. A value caught by a
  \<^verbatim>\<open>catch\<close> clause is either an \<^verbatim>\<open>Error\<close> or some other value, of which only
  \<^verbatim>\<open>String(value)\<close> is used.
\<close>

type_synonym buffer = "8 word list"

datatype js_error = Error string

datatype thrown = ThrownError js_error | ThrownOther string

text \<open>\<^verbatim>\<open>error instanceof Error ? error : new Error(String(error))\<close>\<close>

definition as_Error :: "thrown \<Rightarrow> js_error" where
  "as_Error x = (case x of ThrownError e \<Rightarrow> e | ThrownOther s \<Rightarrow> Error s)"

text \<open>
  A \<^verbatim>\<open>number\<close> is used by the streams only through its truthiness (in
  \<^verbatim>\<open>options.highwaterMark || 16384\<close>), so a finite number is a real, and the three
  special values are constructors. \<^verbatim>\<open>0\<close>, \<^verbatim>\<open>-0\<close> and \<^verbatim>\<open>NaN\<close> are the falsy numbers.
\<close>

datatype js_number = Num real | NaN | PosInfinity | NegInfinity

fun truthy :: "js_number \<Rightarrow> bool" where
  "truthy (Num r) = (r \<noteq> 0)"
| "truthy NaN = False"
| "truthy PosInfinity = True"
| "truthy NegInfinity = True"

text \<open>\<^verbatim>\<open>x || d\<close> for an optional number \<open>x\<close> (\<open>None\<close> is \<^verbatim>\<open>undefined\<close>).\<close>

fun js_or :: "js_number option \<Rightarrow> js_number \<Rightarrow> js_number" where
  "js_or None d = d"
| "js_or (Some x) d = (if truthy x then x else d)"

text \<open>A promise is settled by the engine: resolved with a value, or rejected.\<close>

datatype 'a settled = Resolved 'a | Rejected thrown


section \<open>The data of \<^verbatim>\<open>src/index.ts\<close>\<close>

datatype sample_format =
  SampleFormatFloat32 | SampleFormat8Bit | SampleFormat16Bit | SampleFormat24Bit | SampleFormat32Bit

fun sample_format_code :: "sample_format \<Rightarrow> nat" where
  "sample_format_code SampleFormatFloat32 = 1"
| "sample_format_code SampleFormat8Bit = 8"
| "sample_format_code SampleFormat16Bit = 16"
| "sample_format_code SampleFormat24Bit = 24"
| "sample_format_code SampleFormat32Bit = 32"

text \<open>\<^verbatim>\<open>interface AudioOptions\<close>: every field is optional.\<close>

record AudioOptions =
  deviceId :: "js_number option"
  sampleRate :: "js_number option"
  channelCount :: "js_number option"
  sampleFormat :: "sample_format option"
  maxQueue :: "js_number option"
  framesPerBuffer :: "js_number option"
  highwaterMark :: "js_number option"
  closeOnError :: "bool option"

text \<open>\<^verbatim>\<open>interface AudioIOResult\<close>: three optional fields, not exclusive by type.\<close>

record AudioIOResult =
  err :: "js_error option"
  finished :: "bool option"
  buf :: "buffer option"

text \<open>The argument of \<^verbatim>\<open>AudioIO\<close>.\<close>

record AudioIOOptions =
  inOptions :: "AudioOptions option"
  outOptions :: "AudioOptions option"

text \<open>The mode string of \<^verbatim>\<open>audioIOAddon.quit\<close>: \<^verbatim>\<open>'WAIT'\<close> or \<^verbatim>\<open>'ABORT'\<close>.\<close>

datatype quit_mode = WAIT | ABORT

text \<open>
  Everything a stream does to the outside: the requests it issues to the engine
  (\<^verbatim>\<open>portAudioBindings.create\<close>, and \<^verbatim>\<open>read\<close>, \<^verbatim>\<open>write\<close>, \<^verbatim>\<open>start\<close>, \<^verbatim>\<open>quit\<close> of the
  addon), the calls into its base class (\<^verbatim>\<open>push\<close>, \<^verbatim>\<open>destroy\<close>, \<^verbatim>\<open>emit\<close>), the
  callbacks it invokes (a callback is identified by a number), a promise of its own that
  rejects, and \<^verbatim>\<open>console.error\<close>.
\<close>

datatype action =
    EngineCreate AudioIOOptions
  | EngineRead nat
  | EngineWrite buffer
  | EngineStart
  | EngineQuit quit_mode
  | Push "buffer option"
  | PushNull
  | Destroy js_error
  | WriteCallback nat "js_error option"
  | Callback nat
  | Emit string
  | Rejects thrown
  | ConsoleError "js_error option"

text \<open>
  The three classes. A stream object holds the addon handle, the high-water marks its
  constructor hands to the base class, and the listeners registered with \<^verbatim>\<open>on\<close>, in
  registration order. The other options that the constructors hand to the base class are
  constants (\<^verbatim>\<open>objectMode: false\<close>, \<^verbatim>\<open>decodeStrings: false\<close>, \<^verbatim>\<open>allowHalfOpen: false\<close>,
  \<^verbatim>\<open>readableObjectMode: false\<close>, \<^verbatim>\<open>writableObjectMode: false\<close>) and are left out.
\<close>

datatype stream_class = AudioReadableStream | AudioWritableStream | AudioDuplexStream

datatype listener = EmitClosed | QuitThenEmitFinished | LogError

record stream =
  cls :: stream_class
  audioIOAddon :: nat
  readableHighWaterMark :: "js_number option"
  writableHighWaterMark :: "js_number option"
  listeners :: "(string \<times> listener) list"

text \<open>
  Each constructor begins with \<^verbatim>\<open>super({...})\<close>, the constructor of the platform's
  \<^verbatim>\<open>Readable\<close>, \<^verbatim>\<open>Writable\<close> or \<^verbatim>\<open>Duplex\<close>, which is not part of the repository. That
  constructor checks the high-water marks it is handed: a mark that is not a non-negative
  integer makes it throw, and then no stream object exists.
\<close>

fun valid_mark :: "js_number \<Rightarrow> bool" where
  "valid_mark (Num r) = (0 \<le> r \<and> of_int \<lfloor>r\<rfloor> = r)"
| "valid_mark NaN = False"
| "valid_mark PosInfinity = False"
| "valid_mark NegInfinity = False"

fun mark_accepted :: "js_number option \<Rightarrow> bool" where
  "mark_accepted None = True"
| "mark_accepted (Some x) = valid_mark x"

definition base_constructor :: "stream \<Rightarrow> thrown + stream" where
  "base_constructor st =
     (if mark_accepted (readableHighWaterMark st) \<and> mark_accepted (writableHighWaterMark st)
      then Inr st
      else Inl (ThrownError (Error ''ERR_INVALID_ARG_VALUE'')))"

definition new_AudioReadableStream :: "nat \<Rightarrow> AudioOptions \<Rightarrow> thrown + stream" where
  "new_AudioReadableStream addon options =
     base_constructor
       \<lparr>cls = AudioReadableStream, audioIOAddon = addon,
        readableHighWaterMark = Some (js_or (highwaterMark options) (Num 16384)),
        writableHighWaterMark = None,
        listeners = []\<rparr>"

definition new_AudioWritableStream :: "nat \<Rightarrow> AudioOptions \<Rightarrow> thrown + stream" where
  "new_AudioWritableStream addon options =
     base_constructor
       \<lparr>cls = AudioWritableStream, audioIOAddon = addon,
        readableHighWaterMark = None,
        writableHighWaterMark = Some (js_or (highwaterMark options) (Num 16384)),
        listeners = []\<rparr>"

definition new_AudioDuplexStream ::
  "nat \<Rightarrow> AudioOptions \<Rightarrow> AudioOptions \<Rightarrow> thrown + stream" where
  "new_AudioDuplexStream addon inOpts outOpts =
     base_constructor
       \<lparr>cls = AudioDuplexStream, audioIOAddon = addon,
        readableHighWaterMark = Some (js_or (highwaterMark inOpts) (Num 16384)),
        writableHighWaterMark = Some (js_or (highwaterMark outOpts) (Num 16384)),
        listeners = []\<rparr>"

text \<open>\<^verbatim>\<open>stream.on(name, handler)\<close>\<close>

definition on :: "string \<Rightarrow> listener \<Rightarrow> stream \<Rightarrow> stream" where
  "on name h st = st\<lparr>listeners := listeners st @ [(name, h)]\<rparr>"


section \<open>The factory\<close>

text \<open>
  \<^verbatim>\<open>AudioIO(options)\<close>. The native \<^verbatim>\<open>portAudioBindings.create\<close> is a parameter: it
  returns an addon handle or throws. The result is the list of engine calls made and
  the stream returned, or the value thrown: by \<^verbatim>\<open>create\<close>, by the constructor of the
  chosen class, or by \<^verbatim>\<open>AudioIO\<close> itself. The presence tests
  \<^verbatim>\<open>'inOptions' in options && options.inOptions !== undefined\<close> are \<open>inOptions options \<noteq> None\<close>.
\<close>

definition AudioIO ::
  "(AudioIOOptions \<Rightarrow> thrown + nat) \<Rightarrow> AudioIOOptions \<Rightarrow> action list \<times> (thrown + stream)" where
  "AudioIO create options =
     (case create options of
        Inl x \<Rightarrow> ([EngineCreate options], Inl x)
      | Inr audioIOAddon' \<Rightarrow>
          ([EngineCreate options],
           (case (inOptions options, outOptions options) of
              (Some inOpts, Some outOpts) \<Rightarrow>
                (case new_AudioDuplexStream audioIOAddon' inOpts outOpts of
                   Inl x \<Rightarrow> Inl x
                 | Inr stream' \<Rightarrow>
                     Inr (on ''error'' LogError
                           (on ''finish'' QuitThenEmitFinished
                             (on ''close'' EmitClosed stream'))))
            | (Some inOpts, None) \<Rightarrow>
                (case new_AudioReadableStream audioIOAddon' inOpts of
                   Inl x \<Rightarrow> Inl x
                 | Inr stream' \<Rightarrow>
                     Inr (on ''error'' LogError
                           (on ''close'' EmitClosed stream')))
            | (None, Some outOpts) \<Rightarrow>
                (case new_AudioWritableStream audioIOAddon' outOpts of
                   Inl x \<Rightarrow> Inl x
                 | Inr stream' \<Rightarrow>
                     Inr (on ''error'' LogError
                           (on ''finish'' QuitThenEmitFinished
                             (on ''close'' EmitClosed stream'))))
            | (None, None) \<Rightarrow>
                Inl (ThrownError
                      (Error ''AudioIO requires either inOptions, outOptions, or both'')))))"

text \<open>A \<^verbatim>\<open>create\<close> that always succeeds, for closed examples.\<close>

definition create_ok :: "AudioIOOptions \<Rightarrow> thrown + nat" where
  "create_ok options = Inr 0"

definition no_options :: AudioOptions where
  "no_options =
     \<lparr>deviceId = None, sampleRate = None, channelCount = None, sampleFormat = None,
      maxQueue = None, framesPerBuffer = None, highwaterMark = None, closeOnError = None\<rparr>"


section \<open>The methods of the stream classes\<close>

text \<open>
  Every method that talks to the engine is an \<^verbatim>\<open>async\<close> function (or a \<^verbatim>\<open>then\<close> chain)
  with one suspension point: it issues its request, suspends on the promise, and resumes
  when the engine settles the promise. A suspended method is a continuation, stored under
  the number of the promise it waits for.
  \<^item> \<open>AwaitRead\<close>: \<^verbatim>\<open>doRead\<close> at \<^verbatim>\<open>await this.audioIOAddon.read(size)\<close>;
  \<^item> \<open>AwaitWrite cb\<close>: \<^verbatim>\<open>doWrite\<close> at \<^verbatim>\<open>await this.audioIOAddon.write(chunk)\<close>, holding
    its \<^verbatim>\<open>callback\<close>;
  \<^item> \<open>AwaitQuit cb fin\<close>: \<^verbatim>\<open>quit\<close> at \<^verbatim>\<open>await this.audioIOAddon.quit('WAIT')\<close>, holding
    its optional callback; \<open>fin\<close> says that the caller is the factory's \<^verbatim>\<open>finish\<close>
    handler, itself suspended at \<^verbatim>\<open>await stream.quit()\<close>;
  \<^item> \<open>ThenAbort cb\<close>: the \<^verbatim>\<open>then\<close> function of \<^verbatim>\<open>abort\<close>, holding its optional callback.
  The classes keep no other state: their only field is \<^verbatim>\<open>audioIOAddon\<close>.
  \<^verbatim>\<open>AudioDuplexStream\<close> repeats the methods of the other two classes word for word, so
  each method is modelled once, for all classes that have it.

  After its \<^verbatim>\<open>await\<close>, \<^verbatim>\<open>doRead\<close> calls \<^verbatim>\<open>this.push\<close> and \<^verbatim>\<open>doWrite\<close> calls
  \<^verbatim>\<open>callback\<close> inside their \<^verbatim>\<open>try\<close>. Both calls run code of the base class and of the
  consumer, which may call back into the stream and may throw; what they throw is caught
  by the \<^verbatim>\<open>catch\<close> of the method. So such a call is a frame that stays open until the
  call returns or throws: \<open>InPush\<close> for \<^verbatim>\<open>this.push\<close>, \<open>InCallback cb\<close> for
  \<^verbatim>\<open>callback(error)\<close>. At most one frame is open, since a frame is opened only when a
  promise is settled, and no promise is settled while a call is running.
\<close>

datatype continuation =
    AwaitRead
  | AwaitWrite nat
  | AwaitQuit "nat option" bool
  | ThenAbort "nat option"

datatype frame = InPush | InCallback nat

record runtime =
  this :: stream
  pending :: "(nat \<times> continuation) list"
  fresh :: nat
  calling :: "frame option"

definition suspend :: "continuation \<Rightarrow> runtime \<Rightarrow> runtime" where
  "suspend k s = s\<lparr>pending := pending s @ [(fresh s, k)], fresh := Suc (fresh s)\<rparr>"

definition resume :: "nat \<Rightarrow> runtime \<Rightarrow> runtime" where
  "resume p s = s\<lparr>pending := filter (\<lambda>q. fst q \<noteq> p) (pending s)\<rparr>"

text \<open>Which classes define \<^verbatim>\<open>_read\<close>/\<^verbatim>\<open>doRead\<close> and \<^verbatim>\<open>_write\<close>/\<^verbatim>\<open>doWrite\<close>.\<close>

fun has_read :: "stream_class \<Rightarrow> bool" where
  "has_read AudioReadableStream = True"
| "has_read AudioWritableStream = False"
| "has_read AudioDuplexStream = True"

fun has_write :: "stream_class \<Rightarrow> bool" where
  "has_write AudioReadableStream = False"
| "has_write AudioWritableStream = True"
| "has_write AudioDuplexStream = True"

text \<open>
  \<^verbatim>\<open>doRead\<close>. Up to its \<^verbatim>\<open>await\<close> it issues the read request. Its \<^verbatim>\<open>catch\<close> calls
  \<^verbatim>\<open>this.destroy\<close> with what was caught. When the promise is settled, a rejection goes to
  the \<^verbatim>\<open>catch\<close>; a result with \<^verbatim>\<open>err\<close> is answered by \<^verbatim>\<open>this.destroy(result.err)\<close>;
  otherwise \<^verbatim>\<open>this.push\<close> is called, with \<^verbatim>\<open>null\<close> or with the buffer, and that call is
  the frame that \<open>doRead_calls\<close> opens. When the call throws, the \<^verbatim>\<open>catch\<close> runs after
  it. (\<^verbatim>\<open>destroy\<close> runs no code of the consumer before it returns, so it opens no frame.)
\<close>

definition doRead :: "nat \<Rightarrow> runtime \<Rightarrow> runtime \<times> action list" where
  "doRead size' s = (suspend AwaitRead s, [EngineRead size'])"

definition doRead_catch :: "thrown \<Rightarrow> action list" where
  "doRead_catch error = [Destroy (as_Error error)]"

fun doRead_resume :: "AudioIOResult settled \<Rightarrow> action list" where
  "doRead_resume (Resolved result) =
     (case err result of
        Some e \<Rightarrow> [Destroy e]
      | None \<Rightarrow> (if finished result = Some True then [PushNull] else [Push (buf result)]))"
| "doRead_resume (Rejected error) = doRead_catch error"

fun doRead_calls :: "AudioIOResult settled \<Rightarrow> frame option" where
  "doRead_calls (Resolved result) =
     (case err result of Some e \<Rightarrow> None | None \<Rightarrow> Some InPush)"
| "doRead_calls (Rejected error) = None"

text \<open>
  \<^verbatim>\<open>doWrite\<close>. Up to its \<^verbatim>\<open>await\<close> it issues the write request; the encoding argument is
  unused. Its \<^verbatim>\<open>catch\<close> calls \<^verbatim>\<open>callback\<close> with what was caught. When the promise is
  settled, a rejection goes to the \<^verbatim>\<open>catch\<close>; otherwise \<^verbatim>\<open>callback(error)\<close> is called
  inside the \<^verbatim>\<open>try\<close>, and that call is the frame that \<open>doWrite_calls\<close> opens: when it
  throws, the \<^verbatim>\<open>catch\<close> calls \<^verbatim>\<open>callback\<close> a second time. (What a call of \<^verbatim>\<open>callback\<close>
  made by the \<^verbatim>\<open>catch\<close> throws is caught by nothing in the classes.)
\<close>

definition doWrite :: "buffer \<Rightarrow> nat \<Rightarrow> runtime \<Rightarrow> runtime \<times> action list" where
  "doWrite chunk callback s = (suspend (AwaitWrite callback) s, [EngineWrite chunk])"

definition doWrite_catch :: "nat \<Rightarrow> thrown \<Rightarrow> action list" where
  "doWrite_catch callback error = [WriteCallback callback (Some (as_Error error))]"

fun doWrite_resume :: "nat \<Rightarrow> js_error option settled \<Rightarrow> action list" where
  "doWrite_resume callback (Resolved error) = [WriteCallback callback error]"
| "doWrite_resume callback (Rejected error) = doWrite_catch callback error"

fun doWrite_calls :: "nat \<Rightarrow> js_error option settled \<Rightarrow> frame option" where
  "doWrite_calls callback (Resolved error) = Some (InCallback callback)"
| "doWrite_calls callback (Rejected error) = None"

text \<open>\<^verbatim>\<open>typeof callback === 'function'\<close> then \<^verbatim>\<open>callback()\<close>\<close>

fun call_if_function :: "nat option \<Rightarrow> action list" where
  "call_if_function None = []"
| "call_if_function (Some callback) = [Callback callback]"

text \<open>
  \<^verbatim>\<open>quit\<close>, up to its \<^verbatim>\<open>await\<close> and after it. When the caller is the \<^verbatim>\<open>finish\<close> handler,
  the handler resumes next and emits \<^verbatim>\<open>'finished'\<close>. A rejection leaves through the
  promise that \<^verbatim>\<open>quit\<close> returned. (\<^verbatim>\<open>quit\<close> and \<^verbatim>\<open>abort\<close> have no \<^verbatim>\<open>catch\<close>: what their
  callback throws is caught by nothing in the classes, so the call opens no frame.)
\<close>

definition quit :: "nat option \<Rightarrow> bool \<Rightarrow> runtime \<Rightarrow> runtime \<times> action list" where
  "quit callback fin s = (suspend (AwaitQuit callback fin) s, [EngineQuit WAIT])"

fun quit_resume :: "nat option \<Rightarrow> bool \<Rightarrow> unit settled \<Rightarrow> action list" where
  "quit_resume callback fin (Resolved u) =
     call_if_function callback @ (if fin then [Emit ''finished''] else [])"
| "quit_resume callback fin (Rejected error) = [Rejects error]"

text \<open>\<^verbatim>\<open>abort\<close>: the request, and the \<^verbatim>\<open>then\<close> function.\<close>

definition abort :: "nat option \<Rightarrow> runtime \<Rightarrow> runtime \<times> action list" where
  "abort callback s = (suspend (ThenAbort callback) s, [EngineQuit ABORT])"

fun abort_resume :: "nat option \<Rightarrow> unit settled \<Rightarrow> action list" where
  "abort_resume callback (Resolved u) = call_if_function callback"
| "abort_resume callback (Rejected error) = [Rejects error]"

text \<open>\<^verbatim>\<open>start\<close>\<close>

definition start :: "runtime \<Rightarrow> runtime \<times> action list" where
  "start s = (s, [EngineStart])"

text \<open>The listeners that the factory registers.\<close>

fun listener_run :: "js_error option \<Rightarrow> listener \<Rightarrow> runtime \<Rightarrow> runtime \<times> action list" where
  "listener_run x EmitClosed s = (s, [Emit ''closed''])"
| "listener_run x QuitThenEmitFinished s = quit None True s"
| "listener_run x LogError s = (s, [ConsoleError x])"

fun fire :: "js_error option \<Rightarrow> listener list \<Rightarrow> runtime \<Rightarrow> runtime \<times> action list" where
  "fire x [] s = (s, [])"
| "fire x (l # ls) s =
     (case listener_run x l s of (s1, a1) \<Rightarrow>
        (case fire x ls s1 of (s2, a2) \<Rightarrow> (s2, a1 @ a2)))"

definition listeners_for :: "string \<Rightarrow> stream \<Rightarrow> listener list" where
  "listeners_for name st = map snd (filter (\<lambda>nl. fst nl = name) (listeners st))"


section \<open>Events and steps\<close>

text \<open>
  What happens to a stream: its base class calls \<^verbatim>\<open>_read(size)\<close> or
  \<^verbatim>\<open>_write(chunk, encoding, callback)\<close>; the application calls \<^verbatim>\<open>start()\<close>,
  \<^verbatim>\<open>quit(callback?)\<close> or \<^verbatim>\<open>abort(callback?)\<close>; the engine settles the promise of a read,
  a write or a quit; the call of \<^verbatim>\<open>this.push\<close> or of \<^verbatim>\<open>callback\<close> that is running throws;
  the base class emits \<^verbatim>\<open>'close'\<close>, \<^verbatim>\<open>'finish'\<close> or \<^verbatim>\<open>'error'\<close>.
  A call that is running returns without an event of its own: when the next promise is
  settled, it has returned.
\<close>

datatype event =
    Call_read nat
  | Call_write buffer nat
  | Call_start
  | Call_quit "nat option"
  | Call_abort "nat option"
  | ReadSettled nat "AudioIOResult settled"
  | WriteSettled nat "js_error option settled"
  | QuitSettled nat "unit settled"
  | PushThrows thrown
  | CallbackThrows thrown
  | Fire string "js_error option"

text \<open>
  One event. \<open>None\<close> means that the event cannot happen: the class has no such method,
  no continuation of that kind waits for the promise, or no call of that kind is running.
\<close>

fun step :: "runtime \<Rightarrow> event \<Rightarrow> (runtime \<times> action list) option" where
  "step s (Call_read size') =
     (if has_read (cls (this s)) then Some (doRead size' s) else None)"
| "step s (Call_write chunk callback) =
     (if has_write (cls (this s)) then Some (doWrite chunk callback s) else None)"
| "step s Call_start = Some (start s)"
| "step s (Call_quit callback) = Some (quit callback False s)"
| "step s (Call_abort callback) = Some (abort callback s)"
| "step s (ReadSettled p r) =
     (case map_of (pending s) p of
        Some AwaitRead \<Rightarrow> Some ((resume p s)\<lparr>calling := doRead_calls r\<rparr>, doRead_resume r)
      | _ \<Rightarrow> None)"
| "step s (WriteSettled p r) =
     (case map_of (pending s) p of
        Some (AwaitWrite callback) \<Rightarrow>
          Some ((resume p s)\<lparr>calling := doWrite_calls callback r\<rparr>, doWrite_resume callback r)
      | _ \<Rightarrow> None)"
| "step s (QuitSettled p r) =
     (case map_of (pending s) p of
        Some (AwaitQuit callback fin) \<Rightarrow>
          Some ((resume p s)\<lparr>calling := None\<rparr>, quit_resume callback fin r)
      | Some (ThenAbort callback) \<Rightarrow>
          Some ((resume p s)\<lparr>calling := None\<rparr>, abort_resume callback r)
      | _ \<Rightarrow> None)"
| "step s (PushThrows error) =
     (case calling s of
        Some InPush \<Rightarrow> Some (s\<lparr>calling := None\<rparr>, doRead_catch error)
      | _ \<Rightarrow> None)"
| "step s (CallbackThrows error) =
     (case calling s of
        Some (InCallback callback) \<Rightarrow> Some (s\<lparr>calling := None\<rparr>, doWrite_catch callback error)
      | _ \<Rightarrow> None)"
| "step s (Fire name x) = Some (fire x (listeners_for name (this s)) s)"


section \<open>The base class's side of the contract\<close>

text \<open>
  The classes extend \<^verbatim>\<open>Readable\<close>, \<^verbatim>\<open>Writable\<close> and \<^verbatim>\<open>Duplex\<close> of the platform's stream
  library, which is not part of the repository. Of that library only the calling
  discipline that the classes are written against is used:
  \<^item> \<^verbatim>\<open>_read\<close> is not called again until the stream has called \<^verbatim>\<open>push\<close>, and never after
    \<^verbatim>\<open>push(null)\<close> or \<^verbatim>\<open>destroy\<close>;
  \<^item> \<^verbatim>\<open>_write\<close> is not called again until the stream has invoked the callback of the
    previous \<^verbatim>\<open>_write\<close>, and never after \<^verbatim>\<open>destroy\<close>;
  \<^item> an error handed to the callback of \<^verbatim>\<open>_write\<close> makes the base class destroy the
    stream (the constructors leave \<^verbatim>\<open>autoDestroy\<close> at its default).
  The first two are restrictions only: the base class is free to call less often. It
  hands every \<^verbatim>\<open>_write\<close> one and the same completion function, so it does not tell
  which callback is invoked: an invocation ends the write it takes to be in progress.
\<close>

record base_view =
  reading :: bool
  ended :: bool
  destroyed :: bool
  writing :: bool

fun base_allows :: "base_view \<Rightarrow> event \<Rightarrow> bool" where
  "base_allows v (Call_read size') = (\<not> reading v \<and> \<not> ended v \<and> \<not> destroyed v)"
| "base_allows v (Call_write chunk callback) = (\<not> writing v \<and> \<not> destroyed v)"
| "base_allows v e = True"

fun called :: "event \<Rightarrow> base_view \<Rightarrow> base_view" where
  "called (Call_read size') v = v\<lparr>reading := True\<rparr>"
| "called (Call_write chunk callback) v = v\<lparr>writing := True\<rparr>"
| "called e v = v"

fun observe :: "base_view \<Rightarrow> action \<Rightarrow> base_view" where
  "observe v (Push b) = v\<lparr>reading := False\<rparr>"
| "observe v PushNull = v\<lparr>reading := False, ended := True\<rparr>"
| "observe v (Destroy e) = v\<lparr>destroyed := True\<rparr>"
| "observe v (WriteCallback callback e) =
     v\<lparr>writing := False, destroyed := (destroyed v \<or> e \<noteq> None)\<rparr>"
| "observe v a = v"

text \<open>
  A run: the events of a trace one after the other, each allowed by the base class and
  possible for the stream. The result is the final state and everything the stream did.
\<close>

fun run :: "runtime \<times> base_view \<Rightarrow> event list \<Rightarrow> ((runtime \<times> base_view) \<times> action list) option" where
  "run c [] = Some (c, [])"
| "run c (e # es) =
     (if \<not> base_allows (snd c) e then None
      else (case step (fst c) e of
              None \<Rightarrow> None
            | Some (s', acts) \<Rightarrow>
                (case run (s', foldl observe (called e (snd c)) acts) es of
                   None \<Rightarrow> None
                 | Some (c', acts') \<Rightarrow> Some (c', acts @ acts'))))"

text \<open>A stream right after construction: nothing pending, nothing called yet.\<close>

definition boot :: "stream \<Rightarrow> runtime \<times> base_view" where
  "boot st =
     (\<lparr>this = st, pending = [], fresh = 0, calling = None\<rparr>,
      \<lparr>reading = False, ended = False, destroyed = False, writing = False\<rparr>)"


section \<open>Observations on options, results, traces and actions\<close>

text \<open>
  An optional number that \<^verbatim>\<open>||\<close> replaces by its right operand.
\<close>

fun absent_or_falsy :: "js_number option \<Rightarrow> bool" where
  "absent_or_falsy None = True"
| "absent_or_falsy (Some x) = (\<not> truthy x)"

text \<open>
  The configuration of one direction is accepted by the base-class constructor when its
  high-water mark, \<^verbatim>\<open>options.highwaterMark || 16384\<close>, is.
\<close>

definition options_accepted :: "AudioOptions \<Rightarrow> bool" where
  "options_accepted options = valid_mark (js_or (highwaterMark options) (Num 16384))"

text \<open>
  The stream that a constructor or the factory returned, if it returned, and its class.
\<close>

fun constructed :: "thrown + stream \<Rightarrow> stream option" where
  "constructed (Inl x) = None"
| "constructed (Inr st) = Some st"

fun variant_of :: "thrown + stream \<Rightarrow> stream_class option" where
  "variant_of (Inl x) = None"
| "variant_of (Inr st) = Some (cls st)"

text \<open>
  What a freshly constructed stream does along a trace, if the trace is a run, and
  whether the base class has destroyed it at the end.
\<close>

definition trace_of :: "stream \<Rightarrow> event list \<Rightarrow> action list option" where
  "trace_of st t = map_option snd (run (boot st) t)"


text \<open>
  The kinds of read result. A buffer result has no error, is not finished and carries a
  buffer; a finished result has no error and a true \<^verbatim>\<open>finished\<close>.
\<close>

definition is_buffer_result :: "AudioIOResult \<Rightarrow> bool" where
  "is_buffer_result r = (err r = None \<and> finished r \<noteq> Some True \<and> buf r \<noteq> None)"

definition is_finished_result :: "AudioIOResult \<Rightarrow> bool" where
  "is_finished_result r = (err r = None \<and> finished r = Some True)"

text \<open>
  Of a trace: the outcomes of the engine's reads, what the calls of \<^verbatim>\<open>this.push\<close> threw,
  the sizes of the \<^verbatim>\<open>_read\<close> calls and the chunks of the \<^verbatim>\<open>_write\<close> calls, each in the
  order of the trace; and what \<^verbatim>\<open>doRead\<close> does to the consumer side at an event.
\<close>

fun read_outcomes :: "event list \<Rightarrow> AudioIOResult settled list" where
  "read_outcomes [] = []"
| "read_outcomes (ReadSettled p r # es) = r # read_outcomes es"
| "read_outcomes (e # es) = read_outcomes es"

fun push_throws :: "event list \<Rightarrow> thrown list" where
  "push_throws [] = []"
| "push_throws (PushThrows y # es) = y # push_throws es"
| "push_throws (e # es) = push_throws es"

fun read_sizes :: "event list \<Rightarrow> nat list" where
  "read_sizes [] = []"
| "read_sizes (Call_read n # es) = n # read_sizes es"
| "read_sizes (e # es) = read_sizes es"

fun write_chunks :: "event list \<Rightarrow> buffer list" where
  "write_chunks [] = []"
| "write_chunks (Call_write chunk callback # es) = chunk # write_chunks es"
| "write_chunks (e # es) = write_chunks es"

fun delivery_of :: "event \<Rightarrow> action list" where
  "delivery_of (ReadSettled p r) = doRead_resume r"
| "delivery_of (PushThrows y) = doRead_catch y"
| "delivery_of e = []"

text \<open>
  Of a list of actions: what reaches the consumer side of the base class (\<^verbatim>\<open>push\<close> and
  \<^verbatim>\<open>destroy\<close>), the sizes of the read requests, the chunks of the write requests, the
  pushed buffers, the number of \<^verbatim>\<open>push(null)\<close>, the errors of \<^verbatim>\<open>destroy\<close>, the write
  callbacks, the actions that make the base class destroy the stream (\<^verbatim>\<open>destroy\<close>, and a
  write callback invoked with an error), and the actions before the first of these, after
  the first \<^verbatim>\<open>push(null)\<close> and after the first quit request.
\<close>

fun is_delivery :: "action \<Rightarrow> bool" where
  "is_delivery (Push b) = True"
| "is_delivery PushNull = True"
| "is_delivery (Destroy e) = True"
| "is_delivery a = False"

fun destroys_stream :: "action \<Rightarrow> bool" where
  "destroys_stream (Destroy e) = True"
| "destroys_stream (WriteCallback callback (Some e)) = True"
| "destroys_stream a = False"

fun engine_reads :: "action list \<Rightarrow> nat list" where
  "engine_reads [] = []"
| "engine_reads (EngineRead n # as) = n # engine_reads as"
| "engine_reads (a # as) = engine_reads as"

fun engine_writes :: "action list \<Rightarrow> buffer list" where
  "engine_writes [] = []"
| "engine_writes (EngineWrite b # as) = b # engine_writes as"
| "engine_writes (a # as) = engine_writes as"

fun pushes :: "action list \<Rightarrow> buffer option list" where
  "pushes [] = []"
| "pushes (Push b # as) = b # pushes as"
| "pushes (a # as) = pushes as"

fun eos_count :: "action list \<Rightarrow> nat" where
  "eos_count [] = 0"
| "eos_count (PushNull # as) = Suc (eos_count as)"
| "eos_count (a # as) = eos_count as"

fun destroys :: "action list \<Rightarrow> js_error list" where
  "destroys [] = []"
| "destroys (Destroy e # as) = e # destroys as"
| "destroys (a # as) = destroys as"

fun is_write_callback :: "action \<Rightarrow> bool" where
  "is_write_callback (WriteCallback callback e) = True"
| "is_write_callback a = False"

definition before_destroy :: "action list \<Rightarrow> action list" where
  "before_destroy acts = takeWhile (\<lambda>a. \<not> destroys_stream a) acts"

fun after_eos :: "action list \<Rightarrow> action list" where
  "after_eos [] = []"
| "after_eos (a # as) = (if a = PushNull then as else after_eos as)"

fun after_quit :: "action list \<Rightarrow> action list" where
  "after_quit [] = []"
| "after_quit (EngineQuit m # as) = as"
| "after_quit (a # as) = after_quit as"

text \<open>
  The reads and writes that wait for the engine.
\<close>

fun is_AwaitRead :: "continuation \<Rightarrow> bool" where
  "is_AwaitRead AwaitRead = True"
| "is_AwaitRead k = False"

definition pending_reads :: "runtime \<Rightarrow> (nat \<times> continuation) list" where
  "pending_reads s = filter (\<lambda>q. is_AwaitRead (snd q)) (pending s)"

fun is_AwaitWrite :: "continuation \<Rightarrow> bool" where
  "is_AwaitWrite (AwaitWrite callback) = True"
| "is_AwaitWrite k = False"

definition pending_writes :: "runtime \<Rightarrow> (nat \<times> continuation) list" where
  "pending_writes s = filter (\<lambda>q. is_AwaitWrite (snd q)) (pending s)"

text \<open>
  The pull loop: the base class calls \<^verbatim>\<open>_read(size)\<close>, the engine resolves the read,
  and so on; \<open>k\<close> is the number of the next promise.
\<close>

fun pull :: "nat \<Rightarrow> (nat \<times> AudioIOResult) list \<Rightarrow> event list" where
  "pull k [] = []"
| "pull k (nr # nrs) = Call_read (fst nr) # ReadSettled k (Resolved (snd nr)) # pull (Suc k) nrs"

text \<open>
  The write protocol read off a trace, with \<open>cur\<close> the callback of the write that waits
  for the engine and \<open>fr\<close> the callback whose call is running. \<open>serial w\<close> holds when
  calls of \<^verbatim>\<open>_write\<close> and settlements of writes alternate, starting with a call when
  \<open>w\<close> is false: no \<^verbatim>\<open>_write\<close> while a write waits for the engine, no settlement without
  one. \<open>acks\<close> lists the callbacks owed along the trace: at the settlement of a write its
  callback with the outcome, and at a throw of a running callback that same callback once
  more, with what it threw.
\<close>

fun serial :: "bool \<Rightarrow> event list \<Rightarrow> bool" where
  "serial w [] = True"
| "serial w (Call_write chunk callback # es) = (\<not> w \<and> serial True es)"
| "serial w (WriteSettled p r # es) = (w \<and> serial False es)"
| "serial w (e # es) = serial w es"

fun next_cur :: "nat option \<Rightarrow> event \<Rightarrow> nat option" where
  "next_cur cur (Call_write chunk callback) = Some callback"
| "next_cur cur (WriteSettled p r) = None"
| "next_cur cur e = cur"

fun next_fr :: "nat option \<Rightarrow> nat option \<Rightarrow> event \<Rightarrow> nat option" where
  "next_fr cur fr (WriteSettled p (Resolved error)) = cur"
| "next_fr cur fr (WriteSettled p (Rejected x)) = None"
| "next_fr cur fr (ReadSettled p r) = None"
| "next_fr cur fr (QuitSettled p r) = None"
| "next_fr cur fr (PushThrows y) = None"
| "next_fr cur fr (CallbackThrows y) = None"
| "next_fr cur fr e = fr"

fun ack_of :: "nat option \<Rightarrow> nat option \<Rightarrow> event \<Rightarrow> action list" where
  "ack_of (Some callback) fr (WriteSettled p (Resolved error)) = [WriteCallback callback error]"
| "ack_of (Some callback) fr (WriteSettled p (Rejected x)) =
     [WriteCallback callback (Some (as_Error x))]"
| "ack_of cur (Some callback) (CallbackThrows y) = [WriteCallback callback (Some (as_Error y))]"
| "ack_of cur fr e = []"

fun acks :: "nat option \<Rightarrow> nat option \<Rightarrow> event list \<Rightarrow> action list" where
  "acks cur fr [] = []"
| "acks cur fr (e # es) = ack_of cur fr e @ acks (next_cur cur e) (next_fr cur fr e) es"

fun callback_frame :: "frame option \<Rightarrow> nat option" where
  "callback_frame (Some (InCallback callback)) = Some callback"
| "callback_frame f = None"

text \<open>
  Invariants of a run. For the write side: when a write waits for the engine, the base
  class sees a write in progress or has destroyed the stream; at most one write waits,
  and it holds the callback \<open>cur\<close>; the running callback is \<open>fr\<close>. For the read side: at
  most one read waits for the engine, and none when the base class sees no read in
  progress. Promise numbers in use are below the next fresh one.
\<close>

definition winv :: "nat option \<Rightarrow> nat option \<Rightarrow> runtime \<times> base_view \<Rightarrow> bool" where
  "winv cur fr c =
     ((cur \<noteq> None \<longrightarrow> writing (snd c) \<or> destroyed (snd c))
      \<and> length (pending_writes (fst c)) \<le> 1
      \<and> snd ` set (pending_writes (fst c)) \<subseteq> (case cur of None \<Rightarrow> {} | Some cb \<Rightarrow> {AwaitWrite cb})
      \<and> callback_frame (calling (fst c)) = fr)"

definition rinv :: "runtime \<times> base_view \<Rightarrow> bool" where
  "rinv c = ((\<not> reading (snd c) \<longrightarrow> pending_reads (fst c) = [])
             \<and> length (pending_reads (fst c)) \<le> 1)"

definition ids_ok :: "runtime \<Rightarrow> bool" where
  "ids_ok s = (\<forall>q \<in> set (pending s). fst q < fresh s)"

text \<open>
  Streams, results and states for closed examples.
\<close>

definition rs_stream :: stream where
  "rs_stream =
     \<lparr>cls = AudioReadableStream, audioIOAddon = 0,
      readableHighWaterMark = Some (Num 16384), writableHighWaterMark = None, listeners = []\<rparr>"

definition ws_stream :: stream where
  "ws_stream =
     \<lparr>cls = AudioWritableStream, audioIOAddon = 0,
      readableHighWaterMark = None, writableHighWaterMark = Some (Num 16384), listeners = []\<rparr>"

definition ds_stream :: stream where
  "ds_stream =
     \<lparr>cls = AudioDuplexStream, audioIOAddon = 0,
      readableHighWaterMark = Some (Num 16384), writableHighWaterMark = Some (Num 16384),
      listeners = []\<rparr>"

definition ws_built :: stream where
  "ws_built = on ''error'' LogError (on ''finish'' QuitThenEmitFinished (on ''close'' EmitClosed
       ws_stream))"

definition r_bytes :: AudioIOResult where
  "r_bytes = \<lparr>err = None, finished = None, buf = Some [1, 2, 3]\<rparr>"

definition r_4096 :: AudioIOResult where
  "r_4096 = \<lparr>err = None, finished = None, buf = Some (replicate 4096 0)\<rparr>"

definition r_finished :: AudioIOResult where
  "r_finished = \<lparr>err = None, finished = Some True, buf = None\<rparr>"

definition ds_runtime :: runtime where
  "ds_runtime =
     \<lparr>this = ds_stream, pending = [(0, AwaitRead), (1, AwaitWrite 5)], fresh = 2, calling = None\<rparr>"

definition ds_view :: base_view where
  "ds_view = \<lparr>reading = True, ended = False, destroyed = False, writing = True\<rparr>"

definition ws_runtime :: runtime where
  "ws_runtime = \<lparr>this = ws_built, pending = [], fresh = 0, calling = None\<rparr>"

definition idle_view :: base_view where
  "idle_view = \<lparr>reading = False, ended = False, destroyed = False, writing = False\<rparr>"


section \<open>The high-water mark\<close>

lemma js_or_default: "absent_or_falsy x \<Longrightarrow> js_or x d = d"
  by (cases x) auto

lemma js_or_nonzero: "d \<noteq> Num 0 \<Longrightarrow> js_or x d \<noteq> Num 0"
  by (cases x) auto

lemma valid_default_mark: "valid_mark (Num 16384)"
  by simp

lemma constructed_base:
  "constructed (base_constructor st) =
     (if mark_accepted (readableHighWaterMark st) \<and> mark_accepted (writableHighWaterMark st)
      then Some st else None)"
  by (simp add: base_constructor_def)

text \<open>
  C10. In each of the three constructors, a \<^verbatim>\<open>highwaterMark\<close> option that is absent or
  falsy (\<^verbatim>\<open>0\<close>, \<^verbatim>\<open>NaN\<close>) gives the high-water mark 16384: the readable and the writable
  stream are constructed with it; the duplex stream, whenever it is constructed, has it on
  the readable side for \<^verbatim>\<open>inOptions\<close> and on the writable side for \<^verbatim>\<open>outOptions\<close>, and it
  is constructed exactly when the base class accepts the mark of the other side, so
  always when both options are absent or falsy. Whatever the options are, no
  constructed stream has a high-water mark of 0.
\<close>

theorem highWaterMark_default:
  "(absent_or_falsy (highwaterMark options) \<longrightarrow>
      map_option readableHighWaterMark (constructed (new_AudioReadableStream addon options))
        = Some (Some (Num 16384))
    \<and> map_option writableHighWaterMark (constructed (new_AudioWritableStream addon options))
        = Some (Some (Num 16384))
    \<and> (absent_or_falsy (highwaterMark other) \<longrightarrow>
         map_option readableHighWaterMark (constructed (new_AudioDuplexStream addon options other))
           = Some (Some (Num 16384))
       \<and> map_option writableHighWaterMark (constructed (new_AudioDuplexStream addon other options))
           = Some (Some (Num 16384)))
    \<and> map_option readableHighWaterMark (constructed (new_AudioDuplexStream addon options other))
        = (if options_accepted other then Some (Some (Num 16384)) else None)
    \<and> map_option writableHighWaterMark (constructed (new_AudioDuplexStream addon other options))
        = (if options_accepted other then Some (Some (Num 16384)) else None))
   \<and> map_option readableHighWaterMark (constructed (new_AudioReadableStream addon options))
       \<noteq> Some (Some (Num 0))
   \<and> map_option writableHighWaterMark (constructed (new_AudioWritableStream addon options))
       \<noteq> Some (Some (Num 0))
   \<and> map_option readableHighWaterMark (constructed (new_AudioDuplexStream addon options other))
       \<noteq> Some (Some (Num 0))
   \<and> map_option writableHighWaterMark (constructed (new_AudioDuplexStream addon other options))
       \<noteq> Some (Some (Num 0))"
  by (simp add: new_AudioReadableStream_def new_AudioWritableStream_def
      new_AudioDuplexStream_def constructed_base options_accepted_def
      js_or_default js_or_nonzero)

theorem highWaterMark_default_witness:
  "absent_or_falsy (highwaterMark (no_options\<lparr>highwaterMark := Some (Num 0)\<rparr>))
   \<and> absent_or_falsy (highwaterMark no_options)
   \<and> map_option readableHighWaterMark
        (constructed (new_AudioReadableStream 0 (no_options\<lparr>highwaterMark := Some (Num 0)\<rparr>)))
       = Some (Some (Num 16384))
   \<and> map_option writableHighWaterMark
        (constructed
          (new_AudioDuplexStream 0 no_options (no_options\<lparr>highwaterMark := Some (Num 0)\<rparr>)))
       = Some (Some (Num 16384))"
proof -
  have h: "absent_or_falsy (highwaterMark (no_options\<lparr>highwaterMark := Some (Num 0)\<rparr>))"
    "absent_or_falsy (highwaterMark no_options)"
    by (simp_all add: no_options_def)
  have ok: "options_accepted no_options"
    by (simp add: options_accepted_def no_options_def)
  from highWaterMark_default [of "no_options\<lparr>highwaterMark := Some (Num 0)\<rparr>" 0 no_options] h ok
  show ?thesis by simp
qed


section \<open>The factory: which stream, and when it fails\<close>

text \<open>
  C8, as stated, fails: with \<^verbatim>\<open>inOptions\<close> present and \<^verbatim>\<open>highwaterMark: -1\<close> in it,
  \<^verbatim>\<open>AudioIO\<close> returns no stream: the constructor of the readable class throws.
\<close>

theorem AudioIO_throws_with_configuration:
  "snd (AudioIO create_ok
         \<lparr>inOptions = Some (no_options\<lparr>highwaterMark := Some (Num (- 1))\<rparr>), outOptions = None\<rparr>)
     = Inl (ThrownError (Error ''ERR_INVALID_ARG_VALUE''))
   \<and> variant_of (snd (AudioIO create_ok
         \<lparr>inOptions = Some (no_options\<lparr>highwaterMark := Some (Num (- 1))\<rparr>), outOptions = None\<rparr>))
     = None"
  by (simp add: AudioIO_def create_ok_def no_options_def new_AudioReadableStream_def
      base_constructor_def)

text \<open>
  C8, amended. \<^verbatim>\<open>AudioIO\<close> returns a stream exactly when \<^verbatim>\<open>portAudioBindings.create\<close> has
  returned, a configuration is present and the base-class constructor accepts the
  high-water mark of each configuration present (\<^verbatim>\<open>highwaterMark || 16384\<close> is a
  non-negative integer). The class of that stream is decided by the configurations
  present: duplex for both, readable for \<^verbatim>\<open>inOptions\<close> alone, writable for \<^verbatim>\<open>outOptions\<close>
  alone. In every other case, in particular with neither configuration, it throws.
\<close>

theorem AudioIO_variant_when_constructed:
  "variant_of (snd (AudioIO create options)) =
     (case create options of
        Inl x \<Rightarrow> None
      | Inr a \<Rightarrow>
          (case (inOptions options, outOptions options) of
             (Some inOpts, Some outOpts) \<Rightarrow>
               (if options_accepted inOpts \<and> options_accepted outOpts
                then Some AudioDuplexStream else None)
           | (Some inOpts, None) \<Rightarrow>
               (if options_accepted inOpts then Some AudioReadableStream else None)
           | (None, Some outOpts) \<Rightarrow>
               (if options_accepted outOpts then Some AudioWritableStream else None)
           | (None, None) \<Rightarrow> None))"
  by (auto simp: AudioIO_def on_def new_AudioReadableStream_def new_AudioWritableStream_def
      new_AudioDuplexStream_def base_constructor_def options_accepted_def
      split: sum.splits option.splits)

theorem AudioIO_variant_when_constructed_witness:
  "variant_of (snd (AudioIO create_ok \<lparr>inOptions = Some no_options, outOptions = Some no_options\<rparr>))
     = Some AudioDuplexStream
   \<and> variant_of (snd (AudioIO create_ok \<lparr>inOptions = Some no_options, outOptions = None\<rparr>))
     = Some AudioReadableStream
   \<and> variant_of (snd (AudioIO create_ok \<lparr>inOptions = None, outOptions = Some no_options\<rparr>))
     = Some AudioWritableStream
   \<and> variant_of (snd (AudioIO create_ok \<lparr>inOptions = None, outOptions = None\<rparr>)) = None
   \<and> variant_of (snd (AudioIO create_ok
         \<lparr>inOptions = Some (no_options\<lparr>highwaterMark := Some (Num (3 / 2))\<rparr>),
          outOptions = Some no_options\<rparr>)) = None"
  using AudioIO_variant_when_constructed
      [of create_ok "\<lparr>inOptions = Some no_options, outOptions = Some no_options\<rparr>"]
    AudioIO_variant_when_constructed
      [of create_ok "\<lparr>inOptions = Some no_options, outOptions = None\<rparr>"]
    AudioIO_variant_when_constructed
      [of create_ok "\<lparr>inOptions = None, outOptions = Some no_options\<rparr>"]
    AudioIO_variant_when_constructed
      [of create_ok "\<lparr>inOptions = None, outOptions = None\<rparr>"]
    AudioIO_variant_when_constructed
      [of create_ok "\<lparr>inOptions = Some (no_options\<lparr>highwaterMark := Some (Num (3 / 2))\<rparr>),
          outOptions = Some no_options\<rparr>"]
  by (simp add: create_ok_def options_accepted_def no_options_def)

text \<open>
  C5, as stated, fails: with neither configuration, \<^verbatim>\<open>AudioIO\<close> has already called
  \<^verbatim>\<open>portAudioBindings.create(options)\<close> (its first statement) when it throws, and what it
  throws is a plain \<^verbatim>\<open>Error\<close>.
\<close>

theorem AudioIO_neither_creates_engine_first:
  "AudioIO create_ok \<lparr>inOptions = None, outOptions = None\<rparr> =
     ([EngineCreate \<lparr>inOptions = None, outOptions = None\<rparr>],
      Inl (ThrownError (Error ''AudioIO requires either inOptions, outOptions, or both'')))
   \<and> fst (AudioIO create_ok \<lparr>inOptions = None, outOptions = None\<rparr>) \<noteq> []"
  by (simp add: AudioIO_def create_ok_def)

text \<open>
  C5, amended. With neither configuration, \<^verbatim>\<open>AudioIO\<close> fails synchronously, after exactly
  one engine call, \<^verbatim>\<open>create(options)\<close>: it throws what \<^verbatim>\<open>create\<close> threw, or else the
  \<^verbatim>\<open>Error\<close> with the message \<^verbatim>\<open>AudioIO requires either inOptions, outOptions, or both\<close>.
\<close>

theorem AudioIO_neither_fails_after_create:
  "inOptions options = None \<and> outOptions options = None \<Longrightarrow>
   AudioIO create options =
     ([EngineCreate options],
      Inl (case create options of
             Inl x \<Rightarrow> x
           | Inr a \<Rightarrow> ThrownError (Error ''AudioIO requires either inOptions, outOptions, or both'')))"
  by (simp add: AudioIO_def split: sum.splits)

theorem AudioIO_neither_fails_after_create_witness:
  "inOptions \<lparr>inOptions = None, outOptions = None\<rparr> = None
   \<and> outOptions \<lparr>inOptions = None, outOptions = None\<rparr> = None
   \<and> AudioIO create_ok \<lparr>inOptions = None, outOptions = None\<rparr> =
       ([EngineCreate \<lparr>inOptions = None, outOptions = None\<rparr>],
        Inl (ThrownError (Error ''AudioIO requires either inOptions, outOptions, or both'')))"
  using AudioIO_neither_fails_after_create [of "\<lparr>inOptions = None, outOptions = None\<rparr>" create_ok]
  by (simp add: create_ok_def)


section \<open>Runs\<close>

lemma run_Cons_Some:
  "run c (e # es) = Some (c', acts) \<Longrightarrow>
   \<exists>s1 a1 a2. base_allows (snd c) e \<and> step (fst c) e = Some (s1, a1)
      \<and> run (s1, foldl observe (called e (snd c)) a1) es = Some (c', a2) \<and> acts = a1 @ a2"
  by (auto split: if_splits option.splits prod.splits)

lemma run_append:
  "run c (t1 @ t2) =
     (case run c t1 of
        None \<Rightarrow> None
      | Some (c1, a1) \<Rightarrow>
          (case run c1 t2 of None \<Rightarrow> None | Some (c2, a2) \<Rightarrow> Some (c2, a1 @ a2)))"
proof (induction t1 arbitrary: c)
  case Nil
  then show ?case by (simp split: option.splits)
next
  case (Cons e es)
  then show ?case by (simp split: option.splits prod.splits)
qed

lemma run_prefix:
  "run c t = Some (c', acts) \<Longrightarrow> \<exists>c1 a1. run c (take n t) = Some (c1, a1)"
proof -
  assume r: "run c t = Some (c', acts)"
  have "run c (take n t @ drop n t) = Some (c', acts)"
    using r by simp
  then show ?thesis
    unfolding run_append by (auto split: option.splits)
qed

lemma engine_reads_append: "engine_reads (xs @ ys) = engine_reads xs @ engine_reads ys"
  by (induction xs rule: engine_reads.induct) auto

lemma pushes_append: "pushes (xs @ ys) = pushes xs @ pushes ys"
  by (induction xs rule: pushes.induct) auto

lemma eos_count_append: "eos_count (xs @ ys) = eos_count xs + eos_count ys"
  by (induction xs rule: eos_count.induct) auto

lemma destroys_append: "destroys (xs @ ys) = destroys xs @ destroys ys"
  by (induction xs rule: destroys.induct) auto

lemma pushes_filter: "pushes (filter is_delivery xs) = pushes xs"
  by (induction xs rule: pushes.induct) auto

lemma eos_count_filter: "eos_count (filter is_delivery xs) = eos_count xs"
  by (induction xs rule: eos_count.induct) auto

lemma destroys_filter: "destroys (filter is_delivery xs) = destroys xs"
  by (induction xs rule: destroys.induct) auto

lemma fire_delivery: "fire x ls s = (s', acts) \<Longrightarrow> filter is_delivery acts = []"
proof (induction ls arbitrary: s s' acts)
  case Nil
  then show ?case by simp
next
  case (Cons l ls)
  then show ?case
    by (cases l) (auto simp: quit_def split: prod.splits)
qed

lemma fire_engine_reads: "fire x ls s = (s', acts) \<Longrightarrow> engine_reads acts = []"
proof (induction ls arbitrary: s s' acts)
  case Nil
  then show ?case by simp
next
  case (Cons l ls)
  then show ?case
    by (cases l) (auto simp: quit_def split: prod.splits)
qed

lemma call_if_function_delivery: "filter is_delivery (call_if_function cb) = []"
  by (cases cb) auto

lemma call_if_function_engine_reads: "engine_reads (call_if_function cb) = []"
  by (cases cb) auto

lemma doRead_resume_engine_reads: "engine_reads (doRead_resume r) = []"
  by (cases r) (auto simp: doRead_catch_def split: option.splits)

lemma doRead_resume_delivery: "filter is_delivery (doRead_resume r) = doRead_resume r"
  by (cases r) (auto simp: doRead_catch_def split: option.splits)

lemma step_delivery:
  "step s e = Some (s', acts) \<Longrightarrow> filter is_delivery acts = delivery_of e"
proof (cases e)
  case (QuitSettled p r)
  assume "step s e = Some (s', acts)"
  with QuitSettled show ?thesis
    by (cases r) (auto simp: call_if_function_delivery split: option.splits continuation.splits)
next
  case (WriteSettled p r)
  assume "step s e = Some (s', acts)"
  with WriteSettled show ?thesis
    by (cases r) (auto simp: doWrite_catch_def split: option.splits continuation.splits)
qed (auto simp: doRead_def doWrite_def start_def quit_def abort_def doRead_resume_delivery
      doRead_catch_def doWrite_catch_def
      dest: fire_delivery split: if_splits option.splits continuation.splits frame.splits)

lemma step_engine_reads:
  "step s e = Some (s', acts) \<Longrightarrow>
   engine_reads acts = (case e of Call_read n \<Rightarrow> [n] | _ \<Rightarrow> [])"
proof (cases e)
  case (QuitSettled p r)
  assume "step s e = Some (s', acts)"
  with QuitSettled show ?thesis
    by (cases r) (auto simp: call_if_function_engine_reads engine_reads_append
        split: option.splits continuation.splits)
next
  case (WriteSettled p r)
  assume "step s e = Some (s', acts)"
  with WriteSettled show ?thesis
    by (cases r) (auto simp: doWrite_catch_def split: option.splits continuation.splits)
qed (auto simp: doRead_def doWrite_def start_def quit_def abort_def doRead_resume_engine_reads
      doRead_catch_def doWrite_catch_def
      dest: fire_engine_reads split: if_splits option.splits continuation.splits frame.splits)

lemma run_delivery:
  "run c t = Some (c', acts) \<Longrightarrow> filter is_delivery acts = concat (map delivery_of t)"
proof (induction t arbitrary: c acts)
  case Nil
  then show ?case by simp
next
  case (Cons e es)
  from run_Cons_Some [OF Cons.prems] obtain s1 a1 a2 where
    st: "step (fst c) e = Some (s1, a1)"
    and rest: "run (s1, foldl observe (called e (snd c)) a1) es = Some (c', a2)"
    and acts: "acts = a1 @ a2"
    by blast
  from Cons.IH [OF rest] have "filter is_delivery a2 = concat (map delivery_of es)" .
  with step_delivery [OF st] acts show ?case
    by simp
qed


section \<open>Reading\<close>

lemma pushes_delivery_of:
  "pushes (concat (map delivery_of t)) = pushes (concat (map doRead_resume (read_outcomes t)))"
proof (induction t)
  case Nil
  then show ?case by simp
next
  case (Cons e es)
  then show ?case
    by (cases e) (simp_all add: pushes_append doRead_catch_def)
qed

lemma eos_count_delivery_of:
  "eos_count (concat (map delivery_of t))
     = eos_count (concat (map doRead_resume (read_outcomes t)))"
proof (induction t)
  case Nil
  then show ?case by simp
next
  case (Cons e es)
  then show ?case
    by (cases e) (simp_all add: eos_count_append doRead_catch_def)
qed

lemma destroys_delivery_of:
  "list_all (\<lambda>r. destroys (doRead_resume r) = []) (read_outcomes t) \<Longrightarrow>
   destroys (concat (map delivery_of t)) = map as_Error (push_throws t)"
proof (induction t)
  case Nil
  then show ?case by simp
next
  case (Cons e es)
  then show ?case
    by (cases e) (simp_all add: destroys_append doRead_catch_def)
qed

lemma buffer_results_delivery:
  "list_all is_buffer_result rs \<Longrightarrow>
   concat (map (doRead_resume \<circ> Resolved) rs) = map (\<lambda>r. Push (buf r)) rs"
  by (induction rs) (auto simp: is_buffer_result_def)

lemma buffer_results_no_destroy:
  "list_all is_buffer_result rs \<Longrightarrow>
   list_all (\<lambda>r. destroys (doRead_resume r) = []) (map Resolved rs)"
  by (induction rs) (auto simp: is_buffer_result_def)

lemma pushes_map_Push: "pushes (map (\<lambda>r. Push (f r)) rs @ ys) = map f rs @ pushes ys"
  by (induction rs) auto

lemma eos_count_map_Push: "eos_count (map (\<lambda>r. Push (f r)) rs @ ys) = eos_count ys"
  by (induction rs) auto

lemma results_delivery:
  assumes "list_all is_buffer_result rs" and "is_finished_result fin"
  shows "concat (map doRead_resume (map Resolved (rs @ [fin])))
           = map (\<lambda>r. Push (buf r)) rs @ [PushNull]"
    and "list_all (\<lambda>r. destroys (doRead_resume r) = []) (map Resolved (rs @ [fin]))"
  using assms
  by (simp_all add: buffer_results_delivery is_finished_result_def
      buffer_results_no_destroy [simplified])

lemma ended_observe: "ended v \<Longrightarrow> ended (foldl observe v acts)"
proof (induction acts arbitrary: v)
  case Nil
  then show ?case by simp
next
  case (Cons a acts)
  then show ?case by (cases a) auto
qed

lemma ended_called: "ended (called e v) = ended v"
  by (cases e) auto

lemma destroyed_observe: "destroyed v \<Longrightarrow> destroyed (foldl observe v acts)"
proof (induction acts arbitrary: v)
  case Nil
  then show ?case by simp
next
  case (Cons a acts)
  then show ?case by (cases a) auto
qed

lemma destroyed_called: "destroyed (called e v) = destroyed v"
  by (cases e) auto

lemma reading_observe:
  "filter is_delivery acts = [] \<Longrightarrow> reading (foldl observe v acts) = reading v"
proof (induction acts arbitrary: v)
  case Nil
  then show ?case by simp
next
  case (Cons a acts)
  then show ?case by (cases a) (auto split: if_splits)
qed

lemma ended_no_reads:
  "ended (snd c) \<Longrightarrow> run c t = Some (c', acts) \<Longrightarrow> engine_reads acts = []"
proof (induction t arbitrary: c acts)
  case Nil
  then show ?case by simp
next
  case (Cons e es)
  from run_Cons_Some [OF Cons.prems(2)] obtain s1 a1 a2 where
    ok: "base_allows (snd c) e"
    and st: "step (fst c) e = Some (s1, a1)"
    and rest: "run (s1, foldl observe (called e (snd c)) a1) es = Some (c', a2)"
    and acts: "acts = a1 @ a2"
    by blast
  have "ended (foldl observe (called e (snd c)) a1)"
    using Cons.prems(1) by (simp add: ended_observe ended_called)
  then have "engine_reads a2 = []"
    using Cons.IH [OF _ rest] by simp
  moreover have "engine_reads a1 = []"
    using step_engine_reads [OF st] ok Cons.prems(1) by (cases e) auto
  ultimately show ?case
    using acts by (simp add: engine_reads_append)
qed

lemma after_eos_append:
  "PushNull \<notin> set xs \<Longrightarrow> after_eos (xs @ ys) = after_eos ys"
  by (induction xs) auto

lemma step_PushNull:
  "step s e = Some (s', acts) \<Longrightarrow> PushNull \<in> set acts \<Longrightarrow> acts = [PushNull]"
proof -
  assume st: "step s e = Some (s', acts)" and mem: "PushNull \<in> set acts"
  from mem have "PushNull \<in> set (filter is_delivery acts)" by simp
  with step_delivery [OF st] obtain p r where e: "e = ReadSettled p r"
    by (cases e) (auto simp: doRead_catch_def)
  with st have "acts = doRead_resume r"
    by (auto split: option.splits continuation.splits)
  with mem show ?thesis
    by (cases r) (auto simp: doRead_catch_def split: option.splits if_splits)
qed

lemma no_reads_after_eos:
  "run c t = Some (c', acts) \<Longrightarrow> engine_reads (after_eos acts) = []"
proof (induction t arbitrary: c acts)
  case Nil
  then show ?case by simp
next
  case (Cons e es)
  from run_Cons_Some [OF Cons.prems] obtain s1 a1 a2 where
    st: "step (fst c) e = Some (s1, a1)"
    and rest: "run (s1, foldl observe (called e (snd c)) a1) es = Some (c', a2)"
    and acts: "acts = a1 @ a2"
    by blast
  show ?case
  proof (cases "PushNull \<in> set a1")
    case True
    with step_PushNull [OF st] have a1: "a1 = [PushNull]" by simp
    then have "ended (snd (s1, foldl observe (called e (snd c)) a1))" by simp
    from ended_no_reads [OF this rest] show ?thesis
      using acts a1 by simp
  next
    case False
    then show ?thesis
      using acts Cons.IH [OF rest] by (simp add: after_eos_append)
  qed
qed

lemma pending_reads_resume:
  "pending_reads (resume p s) = filter (\<lambda>q. fst q \<noteq> p) (pending_reads s)"
  by (auto simp: pending_reads_def resume_def intro: filter_cong)

lemma pending_reads_suspend:
  "pending_reads (suspend k s) =
     pending_reads s @ (if is_AwaitRead k then [(fresh s, k)] else [])"
  by (simp add: pending_reads_def suspend_def)

lemma pending_reads_calling: "pending_reads (s\<lparr>calling := f\<rparr>) = pending_reads s"
  by (simp add: pending_reads_def)

lemma fire_reads:
  "fire x ls s = (s', acts) \<Longrightarrow> pending_reads s' = pending_reads s"
proof (induction ls arbitrary: s s' acts)
  case Nil
  then show ?case by simp
next
  case (Cons l ls)
  then show ?case
    by (cases l) (auto simp: quit_def pending_reads_suspend split: prod.splits)
qed

lemma step_pending_reads:
  assumes "step s e = Some (s', acts)"
  shows "pending_reads s' =
           (case e of
              Call_read n \<Rightarrow> pending_reads s @ [(fresh s, AwaitRead)]
            | ReadSettled p r \<Rightarrow> filter (\<lambda>q. fst q \<noteq> p) (pending_reads s)
            | WriteSettled p r \<Rightarrow> filter (\<lambda>q. fst q \<noteq> p) (pending_reads s)
            | QuitSettled p r \<Rightarrow> filter (\<lambda>q. fst q \<noteq> p) (pending_reads s)
            | _ \<Rightarrow> pending_reads s)"
  using assms
  by (cases e)
     (auto simp: doRead_def doWrite_def start_def quit_def abort_def pending_reads_suspend
        pending_reads_resume pending_reads_calling
        dest: fire_reads split: if_splits option.splits continuation.splits frame.splits)

lemma step_ReadSettled_pending:
  "step s (ReadSettled p r) = Some (s', acts) \<Longrightarrow> (p, AwaitRead) \<in> set (pending_reads s)"
  by (auto simp: pending_reads_def dest: map_of_SomeD split: option.splits continuation.splits)

lemma short_list_filter:
  "length xs \<le> 1 \<Longrightarrow> x \<in> set xs \<Longrightarrow> filter (\<lambda>q. fst q \<noteq> fst x) xs = []"
  by (cases xs) auto

lemma rinv_step:
  assumes inv: "rinv (s, v)" and ok: "base_allows v e" and st: "step s e = Some (s', acts)"
  shows "rinv (s', foldl observe (called e v) acts)
       \<and> (\<forall>p r. e = ReadSettled p r \<longrightarrow> pending_reads s' = [])"
proof -
  have idle: "\<not> reading v \<longrightarrow> pending_reads s = []" and len: "length (pending_reads s) \<le> 1"
    using inv by (simp_all add: rinv_def)
  have sub: "\<And>p. length (filter (\<lambda>q. fst q \<noteq> p) (pending_reads s)) \<le> 1
     \<and> (pending_reads s = [] \<longrightarrow> filter (\<lambda>q. fst q \<noteq> p) (pending_reads s) = [])"
    using len by (auto intro: le_trans [OF length_filter_le])
  note pr = step_pending_reads [OF st]
  note dl = step_delivery [OF st]
  show ?thesis
  proof (cases e)
    case (Call_read n)
    with ok idle have "pending_reads s = []" by simp
    with Call_read pr dl show ?thesis
      by (simp add: rinv_def reading_observe)
  next
    case (ReadSettled p r)
    from short_list_filter [OF len step_ReadSettled_pending [OF st [unfolded ReadSettled]]]
    have "pending_reads s' = []"
      using pr ReadSettled by simp
    with ReadSettled show ?thesis
      by (simp add: rinv_def)
  next
    case (Call_write chunk callback)
    with pr dl idle len show ?thesis
      by (simp add: rinv_def reading_observe)
  next
    case Call_start
    with pr dl idle len show ?thesis
      by (simp add: rinv_def reading_observe)
  next
    case (Call_quit cb)
    with pr dl idle len show ?thesis
      by (simp add: rinv_def reading_observe)
  next
    case (Call_abort cb)
    with pr dl idle len show ?thesis
      by (simp add: rinv_def reading_observe)
  next
    case (WriteSettled p r)
    with pr dl idle sub [of p] show ?thesis
      by (simp add: rinv_def reading_observe)
  next
    case (QuitSettled p r)
    with pr dl idle sub [of p] show ?thesis
      by (simp add: rinv_def reading_observe)
  next
    case (PushThrows y)
    with st have "acts = [Destroy (as_Error y)]"
      by (auto simp: doRead_catch_def split: option.splits frame.splits)
    with PushThrows pr idle len show ?thesis
      by (simp add: rinv_def)
  next
    case (CallbackThrows y)
    with pr dl idle len show ?thesis
      by (simp add: rinv_def reading_observe)
  next
    case (Fire name x)
    with pr dl idle len show ?thesis
      by (simp add: rinv_def reading_observe)
  qed
qed

lemma rinv_run:
  "rinv c \<Longrightarrow> run c t = Some (c', acts) \<Longrightarrow> rinv c'"
proof (induction t arbitrary: c acts)
  case Nil
  then show ?case by simp
next
  case (Cons e es)
  from run_Cons_Some [OF Cons.prems(2)] obtain s1 a1 a2 where
    ok: "base_allows (snd c) e"
    and st: "step (fst c) e = Some (s1, a1)"
    and rest: "run (s1, foldl observe (called e (snd c)) a1) es = Some (c', a2)"
    by blast
  have inv: "rinv (fst c, snd c)"
    using Cons.prems(1) by simp
  from Cons.IH [OF conjunct1 [OF rinv_step [OF inv ok st]] rest] show ?case .
qed

lemma rinv_boot: "rinv (boot st)"
  by (simp add: rinv_def boot_def pending_reads_def)

lemma no_read_settles_when_torn_down:
  "pending_reads (fst c) = [] \<Longrightarrow> destroyed (snd c) \<Longrightarrow> run c t = Some (c', acts) \<Longrightarrow>
   read_outcomes t = []"
proof (induction t arbitrary: c acts)
  case Nil
  then show ?case by simp
next
  case (Cons e es)
  from run_Cons_Some [OF Cons.prems(3)] obtain s1 a1 a2 where
    ok: "base_allows (snd c) e"
    and st: "step (fst c) e = Some (s1, a1)"
    and rest: "run (s1, foldl observe (called e (snd c)) a1) es = Some (c', a2)"
    by blast
  have no_read: "\<And>n. e \<noteq> Call_read n"
    using ok Cons.prems(2) by auto
  have no_settle: "\<And>p r. e \<noteq> ReadSettled p r"
    using step_ReadSettled_pending st Cons.prems(1) by fastforce
  have p1: "pending_reads s1 = []"
    using step_pending_reads [OF st] Cons.prems(1) no_read by (cases e) auto
  have d1: "destroyed (foldl observe (called e (snd c)) a1)"
    using Cons.prems(2) by (simp add: destroyed_observe destroyed_called)
  from Cons.IH [OF _ _ rest] p1 d1 have "read_outcomes es = []" by simp
  with no_settle show ?case
    by (cases e) auto
qed

lemma one_read_settles_when_destroyed:
  "rinv c \<Longrightarrow> destroyed (snd c) \<Longrightarrow> run c t = Some (c', acts) \<Longrightarrow>
   length (read_outcomes t) \<le> 1"
proof (induction t arbitrary: c acts)
  case Nil
  then show ?case by simp
next
  case (Cons e es)
  from run_Cons_Some [OF Cons.prems(3)] obtain s1 a1 a2 where
    ok: "base_allows (snd c) e"
    and st: "step (fst c) e = Some (s1, a1)"
    and rest: "run (s1, foldl observe (called e (snd c)) a1) es = Some (c', a2)"
    by blast
  have inv: "rinv (fst c, snd c)"
    using Cons.prems(1) by simp
  note one = rinv_step [OF inv ok st]
  have d1: "destroyed (foldl observe (called e (snd c)) a1)"
    using Cons.prems(2) by (simp add: destroyed_observe destroyed_called)
  show ?case
  proof (cases "\<exists>p r. e = ReadSettled p r")
    case True
    then obtain p r where e: "e = ReadSettled p r" by blast
    with one have "pending_reads s1 = []" by simp
    from no_read_settles_when_torn_down [OF _ _ rest] this d1
    have "read_outcomes es = []" by simp
    with e show ?thesis by simp
  next
    case False
    then have "read_outcomes (e # es) = read_outcomes es"
      by (cases e) auto
    with Cons.IH [OF conjunct1 [OF one] _ rest] d1 show ?thesis by simp
  qed
qed

lemma destroyed_if_destroys_stream:
  "\<exists>a \<in> set acts. destroys_stream a \<Longrightarrow> destroyed (foldl observe v acts)"
proof (induction acts arbitrary: v)
  case Nil
  then show ?case by simp
next
  case (Cons a acts)
  show ?case
  proof (cases "destroys_stream a")
    case True
    then have "destroyed (observe v a)"
      by (cases a rule: destroys_stream.cases) auto
    then show ?thesis
      by (simp add: destroyed_observe)
  next
    case False
    with Cons.prems have "\<exists>a \<in> set acts. destroys_stream a" by simp
    from Cons.IH [OF this] show ?thesis by simp
  qed
qed

lemma pushes_takeWhile_Nil: "pushes xs = [] \<Longrightarrow> pushes (takeWhile P xs) = []"
proof (induction xs)
  case Nil
  then show ?case by simp
next
  case (Cons a xs)
  then show ?case by (cases a) (auto split: if_splits)
qed

lemma pushes_delivery_of_other:
  "(\<And>p r. e \<noteq> ReadSettled p r) \<Longrightarrow> pushes (delivery_of e) = []"
  by (cases e) (auto simp: doRead_catch_def)

lemma read_outcomes_other:
  "(\<And>p r. e \<noteq> ReadSettled p r) \<Longrightarrow> read_outcomes (e # es) = read_outcomes es"
  by (cases e) auto

lemma buffers_pushed_before_destroy:
  assumes "rinv c" and "run c t = Some (c', acts)"
    and "read_outcomes t = map Resolved (rs @ [fin])"
    and "list_all is_buffer_result rs" and "is_finished_result fin"
  shows "pushes (before_destroy acts) = map buf rs"
  using assms
proof (induction t arbitrary: c acts rs)
  case Nil
  then show ?case by simp
next
  case (Cons e es)
  from run_Cons_Some [OF Cons.prems(2)] obtain s1 a1 a2 where
    ok: "base_allows (snd c) e"
    and st: "step (fst c) e = Some (s1, a1)"
    and rest: "run (s1, foldl observe (called e (snd c)) a1) es = Some (c', a2)"
    and acts: "acts = a1 @ a2"
    by blast
  have inv: "rinv (fst c, snd c)"
    using Cons.prems(1) by simp
  note one = conjunct1 [OF rinv_step [OF inv ok st]]
  show ?case
  proof (cases "\<exists>p r. e = ReadSettled p r")
    case True
    then obtain p r where e: "e = ReadSettled p r" by blast
    with st have a1: "a1 = doRead_resume r"
      by (auto split: option.splits continuation.splits)
    show ?thesis
    proof (cases rs)
      case Nil
      with e Cons.prems(3) have r: "r = Resolved fin" and none: "read_outcomes es = []"
        by simp_all
      have "pushes a2 = pushes (concat (map delivery_of es))"
        using run_delivery [OF rest] pushes_filter [of a2] by simp
      then have "pushes a2 = []"
        using none by (simp add: pushes_delivery_of)
      then have "pushes (before_destroy a2) = []"
        unfolding before_destroy_def by (rule pushes_takeWhile_Nil)
      with Nil r a1 acts Cons.prems(5) show ?thesis
        by (simp add: is_finished_result_def before_destroy_def)
    next
      case (Cons r0 rs')
      with e Cons.prems(3) have r: "r = Resolved r0"
        and more: "read_outcomes es = map Resolved (rs' @ [fin])"
        by simp_all
      from Cons Cons.prems(4) have b: "is_buffer_result r0" and bs: "list_all is_buffer_result rs'"
        by simp_all
      from Cons.IH [OF one rest more bs Cons.prems(5)]
      have "pushes (before_destroy a2) = map buf rs'" .
      with Cons r a1 acts b show ?thesis
        by (simp add: is_buffer_result_def before_destroy_def)
    qed
  next
    case False
    then have other: "\<And>p r. e \<noteq> ReadSettled p r" by blast
    have ro: "read_outcomes es = map Resolved (rs @ [fin])"
      using Cons.prems(3) read_outcomes_other [OF other] by simp
    have quiet: "pushes a1 = []"
      using step_delivery [OF st] pushes_filter [of a1] pushes_delivery_of_other [OF other]
      by simp
    show ?thesis
    proof (cases "\<exists>a \<in> set a1. destroys_stream a")
      case True
      then have "destroyed (foldl observe (called e (snd c)) a1)"
        by (rule destroyed_if_destroys_stream)
      from one_read_settles_when_destroyed [OF one _ rest] this
      have "length (read_outcomes es) \<le> 1" by simp
      with ro have "rs = []"
        by (cases rs) (auto dest!: arg_cong [where f = length])
      moreover have "before_destroy (a1 @ a2) = takeWhile (\<lambda>a. \<not> destroys_stream a) a1"
      proof -
        from True obtain a where "a \<in> set a1" and "\<not> \<not> destroys_stream a"
          by blast
        then show ?thesis
          unfolding before_destroy_def by (rule takeWhile_append1)
      qed
      moreover have "pushes (takeWhile (\<lambda>a. \<not> destroys_stream a) a1) = []"
        using quiet by (rule pushes_takeWhile_Nil)
      ultimately show ?thesis
        using acts by simp
    next
      case False
      then have "before_destroy (a1 @ a2) = a1 @ before_destroy a2"
        by (simp add: before_destroy_def takeWhile_append2)
      with quiet acts Cons.IH [OF one rest ro Cons.prems(4,5)] show ?thesis
        by (simp add: pushes_append)
    qed
  qed
qed

lemma pull_finished:
  assumes "has_read (cls (this s))" and "pending s = []"
    and "\<not> reading v" and "\<not> ended v" and "\<not> destroyed v"
    and "list_all is_buffer_result (map snd nrs)" and "is_finished_result fin"
  shows "map_option snd (run (s, v) (pull (fresh s) (nrs @ [(n, fin)]))) =
           Some (concat (map (\<lambda>nr. [EngineRead (fst nr), Push (buf (snd nr))]) nrs)
                 @ [EngineRead n, PushNull])"
  using assms
proof (induction nrs arbitrary: s)
  case Nil
  show ?case
    using Nil.prems(1,2,3,4,5,7)
    by (simp add: doRead_def suspend_def resume_def is_finished_result_def)
next
  case (Cons nr nrs)
  let ?s1 = "s\<lparr>fresh := Suc (fresh s), calling := Some InPush\<rparr>"
  have s1: "has_read (cls (this ?s1))" "pending ?s1 = []" "fresh ?s1 = Suc (fresh s)"
    using Cons.prems by simp_all
  have tail: "list_all is_buffer_result (map snd nrs)"
    using Cons.prems by simp
  have hd: "is_buffer_result (snd nr)"
    using Cons.prems by simp
  have v: "v\<lparr>reading := False\<rparr> = v"
    using Cons.prems(3) by simp
  have s: "s\<lparr>fresh := Suc (fresh s), pending := [], calling := Some InPush\<rparr> = ?s1"
    using Cons.prems(2) by simp
  from Cons.IH [OF s1(1) s1(2) Cons.prems(3,4,5) tail Cons.prems(7)]
  have IH: "map_option snd (run (?s1, v) (pull (Suc (fresh s)) (nrs @ [(n, fin)]))) =
           Some (concat (map (\<lambda>nr. [EngineRead (fst nr), Push (buf (snd nr))]) nrs)
                 @ [EngineRead n, PushNull])"
    by simp
  then obtain c' where r: "run (?s1, v) (pull (Suc (fresh s)) (nrs @ [(n, fin)])) =
           Some (c', concat (map (\<lambda>nr. [EngineRead (fst nr), Push (buf (snd nr))]) nrs)
                 @ [EngineRead n, PushNull])"
    by (cases "run (?s1, v) (pull (Suc (fresh s)) (nrs @ [(n, fin)]))") auto
  show ?case
    using Cons.prems(1,2,3,4,5) hd
    by (simp add: doRead_def suspend_def resume_def is_buffer_result_def v s r)
qed

text \<open>
  C1. Let the engine answer the stream's reads with buffer results and then one finished
  result. In every run of a freshly constructed stream in which these are the outcomes of
  the reads, in this order, the stream pushes exactly the buffers of the results, in
  order and once each, calls \<^verbatim>\<open>push(null)\<close> exactly once, and issues no read request
  after \<^verbatim>\<open>push(null)\<close>. It calls \<^verbatim>\<open>destroy\<close> only where a call of \<^verbatim>\<open>this.push\<close> threw
  (the \<^verbatim>\<open>catch\<close> of \<^verbatim>\<open>doRead\<close>), once for each throw and with what was thrown, and all
  the buffers are pushed before anything destroys the stream (a \<^verbatim>\<open>destroy\<close>, or on a
  duplex stream a write callback with an error). Such a run exists for every stream
  with a \<^verbatim>\<open>_read\<close> method: in the pull loop it answers each \<^verbatim>\<open>_read\<close> with one read
  request and each buffer result with one \<^verbatim>\<open>push\<close>, and the finished result with
  \<^verbatim>\<open>push(null)\<close>.
\<close>

theorem readable_delivers_then_ends:
  assumes "list_all is_buffer_result (map snd nrs)" and "is_finished_result fin"
  shows "(\<forall>t acts. trace_of st t = Some acts
            \<and> read_outcomes t = map Resolved (map snd nrs @ [fin]) \<longrightarrow>
              pushes acts = map (\<lambda>nr. buf (snd nr)) nrs \<and> eos_count acts = 1
            \<and> engine_reads (after_eos acts) = []
            \<and> destroys acts = map as_Error (push_throws t)
            \<and> pushes (before_destroy acts) = map (\<lambda>nr. buf (snd nr)) nrs)
       \<and> (has_read (cls st) \<longrightarrow>
            trace_of st (pull 0 (nrs @ [(n, fin)])) =
              Some (concat (map (\<lambda>nr. [EngineRead (fst nr), Push (buf (snd nr))]) nrs)
                    @ [EngineRead n, PushNull]))"
proof (intro conjI allI impI)
  fix t acts
  assume h: "trace_of st t = Some acts
    \<and> read_outcomes t = map Resolved (map snd nrs @ [fin])"
  then obtain c where r: "run (boot st) t = Some (c, acts)"
    by (auto simp: trace_of_def)
  from h have ro: "read_outcomes t = map Resolved (map snd nrs @ [fin])"
    by simp
  note d = run_delivery [OF r]
  note rd = results_delivery [OF assms]
  have "pushes acts = pushes (concat (map doRead_resume (read_outcomes t)))"
    using d pushes_filter [of acts] by (simp add: pushes_delivery_of)
  also have "\<dots> = pushes (map (\<lambda>r. Push (buf r)) (map snd nrs) @ [PushNull])"
    unfolding ro rd(1) ..
  also have "\<dots> = map buf (map snd nrs)"
    by (simp only: pushes_map_Push) simp
  finally show "pushes acts = map (\<lambda>nr. buf (snd nr)) nrs"
    by (simp add: comp_def)
  have "eos_count acts = eos_count (concat (map doRead_resume (read_outcomes t)))"
    using d eos_count_filter [of acts] by (simp add: eos_count_delivery_of)
  also have "\<dots> = eos_count (map (\<lambda>r. Push (buf r)) (map snd nrs) @ [PushNull])"
    unfolding ro rd(1) ..
  also have "\<dots> = 1"
    by (simp only: eos_count_map_Push) simp
  finally show "eos_count acts = 1" .
  show "engine_reads (after_eos acts) = []"
    using no_reads_after_eos [OF r] .
  have "destroys acts = destroys (concat (map delivery_of t))"
    using d destroys_filter [of acts] by simp
  also have "\<dots> = map as_Error (push_throws t)"
    using destroys_delivery_of [of t] rd(2) unfolding ro by simp
  finally show "destroys acts = map as_Error (push_throws t)" .
  have "pushes (before_destroy acts) = map buf (map snd nrs)"
    using buffers_pushed_before_destroy [OF rinv_boot r ro assms] .
  then show "pushes (before_destroy acts) = map (\<lambda>nr. buf (snd nr)) nrs"
    by (simp add: comp_def)
next
  assume "has_read (cls st)"
  then show "trace_of st (pull 0 (nrs @ [(n, fin)])) =
              Some (concat (map (\<lambda>nr. [EngineRead (fst nr), Push (buf (snd nr))]) nrs)
                    @ [EngineRead n, PushNull])"
    using pull_finished [of "fst (boot st)" "snd (boot st)" nrs fin n] assms
    by (simp add: trace_of_def boot_def)
qed

theorem readable_delivers_then_ends_witness:
  "list_all is_buffer_result (map snd [(16384::nat, r_4096), (16384, r_4096)])
   \<and> is_finished_result r_finished
   \<and> has_read (cls rs_stream)
   \<and> trace_of rs_stream (pull 0 ([(16384, r_4096), (16384, r_4096)] @ [(16384, r_finished)])) =
       Some [EngineRead 16384, Push (buf r_4096), EngineRead 16384, Push (buf r_4096),
             EngineRead 16384, PushNull]
   \<and> trace_of rs_stream
        [Call_read 16384, ReadSettled 0 (Resolved r_4096),
         Call_read 16384, ReadSettled 1 (Resolved r_4096),
         Call_read 16384, PushThrows (ThrownOther ''handler''),
         ReadSettled 2 (Resolved r_finished)] =
       Some [EngineRead 16384, Push (buf r_4096), EngineRead 16384, Push (buf r_4096),
             EngineRead 16384, Destroy (Error ''handler''), PushNull]
   \<and> pushes (before_destroy
        [EngineRead 16384, Push (buf r_4096), EngineRead 16384, Push (buf r_4096),
         EngineRead 16384, Destroy (Error ''handler''), PushNull]) = [buf r_4096, buf r_4096]
   \<and> destroys
        [EngineRead 16384, Push (buf r_4096), EngineRead 16384, Push (buf r_4096),
         EngineRead 16384, Destroy (Error ''handler''), PushNull] = [Error ''handler'']"
proof -
  let ?t = "[Call_read 16384, ReadSettled 0 (Resolved r_4096),
         Call_read 16384, ReadSettled 1 (Resolved r_4096),
         Call_read 16384, PushThrows (ThrownOther ''handler''),
         ReadSettled 2 (Resolved r_finished)]"
  let ?a = "[EngineRead 16384, Push (buf r_4096), EngineRead 16384, Push (buf r_4096),
         EngineRead 16384, Destroy (Error ''handler''), PushNull]"
  have h: "list_all is_buffer_result (map snd [(16384::nat, r_4096), (16384, r_4096)])"
    "is_finished_result r_finished"
    by (simp_all add: is_buffer_result_def is_finished_result_def r_4096_def r_finished_def)
  have c: "has_read (cls rs_stream)"
    by (simp add: rs_stream_def)
  have t: "trace_of rs_stream ?t = Some ?a"
    by (simp add: trace_of_def boot_def rs_stream_def doRead_def doRead_catch_def suspend_def
        resume_def as_Error_def r_4096_def r_finished_def)
  have ro: "read_outcomes ?t
     = map Resolved (map snd [(16384::nat, r_4096), (16384, r_4096)] @ [r_finished])"
    by simp
  note main = readable_delivers_then_ends [OF h, of rs_stream 16384]
  from main c have p: "trace_of rs_stream
        (pull 0 ([(16384, r_4096), (16384, r_4096)] @ [(16384, r_finished)])) =
       Some [EngineRead 16384, Push (buf r_4096), EngineRead 16384, Push (buf r_4096),
             EngineRead 16384, PushNull]"
    by simp
  from main t ro have "pushes (before_destroy ?a)
        = map (\<lambda>nr. buf (snd nr)) [(16384::nat, r_4096), (16384, r_4096)]
     \<and> destroys ?a = map as_Error (push_throws ?t)"
    by blast
  with h c t p show ?thesis
    by (simp add: as_Error_def)
qed


section \<open>Writing\<close>

lemma engine_writes_append: "engine_writes (xs @ ys) = engine_writes xs @ engine_writes ys"
  by (induction xs rule: engine_writes.induct) auto

lemma writing_observe:
  "writing (foldl observe v acts) = (writing v \<and> filter is_write_callback acts = [])"
proof (induction acts arbitrary: v)
  case Nil
  then show ?case by simp
next
  case (Cons a acts)
  then show ?case by (cases a) auto
qed

lemma pending_writes_resume:
  "pending_writes (resume p s) = filter (\<lambda>q. fst q \<noteq> p) (pending_writes s)"
  by (auto simp: pending_writes_def resume_def intro: filter_cong)

lemma pending_writes_suspend:
  "pending_writes (suspend k s) =
     pending_writes s @ (if is_AwaitWrite k then [(fresh s, k)] else [])"
  by (simp add: pending_writes_def suspend_def)

lemma pending_writes_calling: "pending_writes (s\<lparr>calling := f\<rparr>) = pending_writes s"
  by (simp add: pending_writes_def)

lemma calling_suspend: "calling (suspend k s) = calling s"
  by (simp add: suspend_def)

lemma fire_writes:
  "fire x ls s = (s', acts) \<Longrightarrow>
   pending_writes s' = pending_writes s \<and> filter is_write_callback acts = []
   \<and> engine_writes acts = [] \<and> calling s' = calling s"
proof (induction ls arbitrary: s s' acts)
  case Nil
  then show ?case by simp
next
  case (Cons l ls)
  then show ?case
    by (cases l) (auto simp: quit_def suspend_def pending_writes_def engine_writes_append
        split: prod.splits)
qed

lemma call_if_function_writes:
  "filter is_write_callback (call_if_function cb) = [] \<and> engine_writes (call_if_function cb) = []"
  by (cases cb) auto

lemma doRead_resume_writes:
  "filter is_write_callback (doRead_resume r) = [] \<and> engine_writes (doRead_resume r) = []"
  by (cases r) (auto simp: doRead_catch_def split: option.splits)

lemma quit_resume_writes:
  "filter is_write_callback (quit_resume cb fin r) = [] \<and> engine_writes (quit_resume cb fin r) = []"
  by (cases r) (auto simp: call_if_function_writes engine_writes_append)

lemma abort_resume_writes:
  "filter is_write_callback (abort_resume cb r) = [] \<and> engine_writes (abort_resume cb r) = []"
  by (cases r) (auto simp: call_if_function_writes)

lemma doWrite_resume_writes:
  "filter is_write_callback (doWrite_resume cb r) = doWrite_resume cb r
   \<and> engine_writes (doWrite_resume cb r) = []"
  by (cases r) (auto simp: doWrite_catch_def)

lemma step_engine_writes:
  "step s e = Some (s', acts) \<Longrightarrow>
   engine_writes acts = (case e of Call_write chunk callback \<Rightarrow> [chunk] | _ \<Rightarrow> [])"
  by (cases e)
     (auto simp: doRead_def doWrite_def start_def quit_def abort_def doRead_resume_writes
        doWrite_resume_writes quit_resume_writes abort_resume_writes doRead_catch_def
        doWrite_catch_def
        dest: fire_writes split: if_splits option.splits continuation.splits frame.splits)

lemma run_engine_writes:
  "run c t = Some (c', acts) \<Longrightarrow> engine_writes acts = write_chunks t"
proof (induction t arbitrary: c acts)
  case Nil
  then show ?case by simp
next
  case (Cons e es)
  from run_Cons_Some [OF Cons.prems] obtain s1 a1 a2 where
    st: "step (fst c) e = Some (s1, a1)"
    and rest: "run (s1, foldl observe (called e (snd c)) a1) es = Some (c', a2)"
    and acts: "acts = a1 @ a2"
    by blast
  from Cons.IH [OF rest] step_engine_writes [OF st] acts show ?case
    by (cases e) (auto simp: engine_writes_append)
qed

lemma callback_frame_doRead_calls: "callback_frame (doRead_calls r) = None"
  by (cases r) (auto split: option.splits)

lemma winv_step:
  assumes inv: "winv cur fr (s, v)" and ok: "base_allows v e" and st: "step s e = Some (s', acts)"
  shows "winv (next_cur cur e) (next_fr cur fr e) (s', foldl observe (called e v) acts)
    \<and> filter is_write_callback acts = ack_of cur fr e
    \<and> serial (cur \<noteq> None) [e]"
proof -
  have w: "cur \<noteq> None \<longrightarrow> writing v \<or> destroyed v" and len: "length (pending_writes s) \<le> 1"
    and own: "snd ` set (pending_writes s) \<subseteq> (case cur of None \<Rightarrow> {} | Some cb \<Rightarrow> {AwaitWrite cb})"
    and fr: "callback_frame (calling s) = fr"
    using inv by (simp_all add: winv_def)
  have sub: "\<And>p. length (filter (\<lambda>q. fst q \<noteq> p) (pending_writes s)) \<le> 1
     \<and> snd ` set (filter (\<lambda>q. fst q \<noteq> p) (pending_writes s))
        \<subseteq> (case cur of None \<Rightarrow> {} | Some cb \<Rightarrow> {AwaitWrite cb})"
    using len own by (auto intro: le_trans [OF length_filter_le])
  have keep: "\<And>a. filter is_write_callback a = [] \<Longrightarrow>
     cur \<noteq> None \<longrightarrow> writing (foldl observe v a) \<or> destroyed (foldl observe v a)"
    using w by (auto simp: writing_observe destroyed_observe)
  show ?thesis
  proof (cases e)
    case (Call_read n)
    with st have "s' = suspend AwaitRead s" "acts = [EngineRead n]"
      by (auto simp: doRead_def split: if_splits)
    with Call_read w len own fr show ?thesis
      by (simp add: winv_def pending_writes_suspend calling_suspend)
  next
    case (Call_write chunk callback)
    with ok w have "cur = None"
      by (cases cur) auto
    with own have "pending_writes s = []" by simp
    moreover from Call_write st have "s' = suspend (AwaitWrite callback) s" "acts = [EngineWrite chunk]"
      by (auto simp: doWrite_def split: if_splits)
    ultimately show ?thesis
      using Call_write \<open>cur = None\<close> fr
      by (simp add: winv_def pending_writes_suspend calling_suspend)
  next
    case Call_start
    with st have "s' = s" "acts = [EngineStart]"
      by (auto simp: start_def)
    with Call_start w len own fr show ?thesis
      by (simp add: winv_def)
  next
    case (Call_quit cb)
    with st have "s' = suspend (AwaitQuit cb False) s" "acts = [EngineQuit WAIT]"
      by (auto simp: quit_def)
    with Call_quit w len own fr show ?thesis
      by (simp add: winv_def pending_writes_suspend calling_suspend)
  next
    case (Call_abort cb)
    with st have "s' = suspend (ThenAbort cb) s" "acts = [EngineQuit ABORT]"
      by (auto simp: abort_def)
    with Call_abort w len own fr show ?thesis
      by (simp add: winv_def pending_writes_suspend calling_suspend)
  next
    case (ReadSettled p r)
    with st have s': "s' = (resume p s)\<lparr>calling := doRead_calls r\<rparr>" and acts: "acts = doRead_resume r"
      by (auto split: option.splits continuation.splits)
    from keep [of "doRead_resume r"] have "cur \<noteq> None \<longrightarrow>
        writing (foldl observe v (doRead_resume r)) \<or> destroyed (foldl observe v (doRead_resume r))"
      by (simp add: doRead_resume_writes)
    with ReadSettled s' acts sub [of p] show ?thesis
      by (simp add: winv_def pending_writes_resume pending_writes_calling doRead_resume_writes
          callback_frame_doRead_calls)
  next
    case (QuitSettled p r)
    with st have s': "s' = (resume p s)\<lparr>calling := None\<rparr>"
      and acts: "(\<exists>cb fin. acts = quit_resume cb fin r) \<or> (\<exists>cb. acts = abort_resume cb r)"
      by (auto split: option.splits continuation.splits)
    from acts have none: "filter is_write_callback acts = []"
      by (auto simp: quit_resume_writes abort_resume_writes)
    from keep [OF none] QuitSettled s' none sub [of p] show ?thesis
      by (simp add: winv_def pending_writes_resume pending_writes_calling)
  next
    case (Fire name x)
    with st have f: "fire x (listeners_for name (this s)) s = (s', acts)"
      by simp
    from fire_writes [OF f] keep [of acts] Fire len own fr show ?thesis
      by (simp add: winv_def)
  next
    case (PushThrows y)
    with st have s': "s' = s\<lparr>calling := None\<rparr>" and acts: "acts = [Destroy (as_Error y)]"
      and c: "calling s = Some InPush"
      by (auto simp: doRead_catch_def split: option.splits frame.splits)
    from c fr have "fr = None" by auto
    with PushThrows s' acts len own show ?thesis
      by (simp add: winv_def pending_writes_calling)
  next
    case (CallbackThrows y)
    with st obtain cb where s': "s' = s\<lparr>calling := None\<rparr>"
      and acts: "acts = [WriteCallback cb (Some (as_Error y))]"
      and c: "calling s = Some (InCallback cb)"
      by (auto simp: doWrite_catch_def split: option.splits frame.splits)
    from c fr have "fr = Some cb" by auto
    with CallbackThrows s' acts len own show ?thesis
      by (simp add: winv_def pending_writes_calling)
  next
    case (WriteSettled p r)
    with st obtain cb where look: "map_of (pending s) p = Some (AwaitWrite cb)"
      and s': "s' = (resume p s)\<lparr>calling := doWrite_calls cb r\<rparr>"
      and acts: "acts = doWrite_resume cb r"
      by (auto split: option.splits continuation.splits)
    from look have mem: "(p, AwaitWrite cb) \<in> set (pending_writes s)"
      by (auto simp: pending_writes_def dest: map_of_SomeD)
    with own have cur: "cur = Some cb"
      by (cases cur) auto
    from short_list_filter [OF len mem] have gone: "pending_writes s' = []"
      by (simp add: s' pending_writes_resume pending_writes_calling)
    from WriteSettled cur gone acts s' show ?thesis
      by (cases r) (simp_all add: winv_def doWrite_catch_def)
  qed
qed

lemma winv_run:
  "winv cur fr c \<Longrightarrow> run c t = Some (c', acts) \<Longrightarrow>
   (\<exists>cur' fr'. winv cur' fr' c') \<and> filter is_write_callback acts = acks cur fr t
   \<and> serial (cur \<noteq> None) t"
proof (induction t arbitrary: c cur fr acts)
  case Nil
  then show ?case by auto
next
  case (Cons e es)
  from run_Cons_Some [OF Cons.prems(2)] obtain s1 a1 a2 where
    ok: "base_allows (snd c) e"
    and st: "step (fst c) e = Some (s1, a1)"
    and rest: "run (s1, foldl observe (called e (snd c)) a1) es = Some (c', a2)"
    and acts: "acts = a1 @ a2"
    by blast
  have inv: "winv cur fr (fst c, snd c)"
    using Cons.prems(1) by simp
  note one = winv_step [OF inv ok st]
  from Cons.IH [OF conjunct1 [OF one] rest]
  have two: "\<exists>cur' fr'. winv cur' fr' c'"
    "filter is_write_callback a2 = acks (next_cur cur e) (next_fr cur fr e) es"
    "serial (next_cur cur e \<noteq> None) es"
    by simp_all
  have "serial (cur \<noteq> None) (e # es)"
    using one two(3) by (cases e) auto
  moreover have "filter is_write_callback acts = acks cur fr (e # es)"
    using one two(2) acts by simp
  ultimately show ?case
    using two(1) by blast
qed

lemma winv_boot: "winv None None (boot st)"
  by (simp add: winv_def boot_def pending_writes_def)

text \<open>
  C2. In every run of a freshly constructed stream: the write requests issued to the
  engine are the chunks handed to \<^verbatim>\<open>_write\<close>, in that order, one request per chunk;
  calls of \<^verbatim>\<open>_write\<close> and settlements of the engine's writes alternate, so that a chunk
  is accepted only after the engine's write for the previous chunk has settled; and at
  every point of the run at most one write waits for the engine. The write callbacks
  invoked are exactly these: at the settlement of a write, the callback of that write
  with its outcome; and, where that call of the callback throws, the same callback once
  more with what it threw (the \<^verbatim>\<open>catch\<close> of \<^verbatim>\<open>doWrite\<close>). The second invocation carries
  an error, on which the base class destroys the stream: it lets no further chunk in,
  also when a \<^verbatim>\<open>_write\<close> made from inside the first invocation is still waiting for
  the engine.
\<close>

theorem writes_one_at_a_time_in_order:
  assumes "trace_of st t = Some acts"
  shows "engine_writes acts = write_chunks t
       \<and> serial False t
       \<and> filter is_write_callback acts = acks None None t
       \<and> (\<forall>n. \<exists>c a. run (boot st) (take n t) = Some (c, a)
                     \<and> length (pending_writes (fst c)) \<le> 1)"
proof -
  from assms obtain c where r: "run (boot st) t = Some (c, acts)"
    by (auto simp: trace_of_def)
  have "engine_writes acts = write_chunks t"
    using run_engine_writes [OF r] .
  moreover have "serial False t" "filter is_write_callback acts = acks None None t"
    using winv_run [OF winv_boot r] by simp_all
  moreover have "\<exists>c a. run (boot st) (take n t) = Some (c, a)
                     \<and> length (pending_writes (fst c)) \<le> 1" for n
  proof -
    from run_prefix [OF r] obtain c1 a1 where p: "run (boot st) (take n t) = Some (c1, a1)"
      by blast
    from winv_run [OF winv_boot p] have "length (pending_writes (fst c1)) \<le> 1"
      by (auto simp: winv_def)
    with p show ?thesis by blast
  qed
  ultimately show ?thesis by blast
qed

theorem writes_one_at_a_time_in_order_witness:
  "trace_of ws_stream
     [Call_write [1, 2] 10, WriteSettled 0 (Resolved None),
      Call_write [3] 10, CallbackThrows (ThrownOther ''handler''),
      WriteSettled 1 (Resolved None)]
     = Some [EngineWrite [1, 2], WriteCallback 10 None,
             EngineWrite [3], WriteCallback 10 (Some (Error ''handler'')),
             WriteCallback 10 None]
   \<and> engine_writes [EngineWrite [1, 2], WriteCallback 10 None,
             EngineWrite [3], WriteCallback 10 (Some (Error ''handler'')),
             WriteCallback 10 None] = [[1, 2], [3]]
   \<and> serial False [Call_write [1, 2] 10, WriteSettled 0 (Resolved None),
      Call_write [3] 10, CallbackThrows (ThrownOther ''handler''),
      WriteSettled 1 (Resolved None)]
   \<and> acks None None [Call_write [1, 2] 10, WriteSettled 0 (Resolved None),
      Call_write [3] 10, CallbackThrows (ThrownOther ''handler''),
      WriteSettled 1 (Resolved None)]
     = [WriteCallback 10 None, WriteCallback 10 (Some (Error ''handler'')), WriteCallback 10 None]"
proof -
  have t: "trace_of ws_stream
     [Call_write [1, 2] 10, WriteSettled 0 (Resolved None),
      Call_write [3] 10, CallbackThrows (ThrownOther ''handler''),
      WriteSettled 1 (Resolved None)]
     = Some [EngineWrite [1, 2], WriteCallback 10 None,
             EngineWrite [3], WriteCallback 10 (Some (Error ''handler'')),
             WriteCallback 10 None]"
    by (simp add: trace_of_def boot_def ws_stream_def doWrite_def doWrite_catch_def suspend_def
        resume_def as_Error_def)
  from writes_one_at_a_time_in_order [OF t] t show ?thesis
    by (simp add: as_Error_def)
qed

subsection \<open>A write error\<close>





subsection \<open>A read error\<close>

lemma step_InPush:
  "step s e = Some (s', acts) \<Longrightarrow> calling s' = Some InPush \<Longrightarrow>
   (\<exists>p r. e = ReadSettled p r) \<or> calling s = Some InPush"
proof (cases e)
  case (WriteSettled p r)
  assume "step s e = Some (s', acts)" "calling s' = Some InPush"
  with WriteSettled show ?thesis
    by (cases r) (auto split: option.splits continuation.splits)
next
  case (Fire name x)
  assume "step s e = Some (s', acts)" "calling s' = Some InPush"
  with Fire show ?thesis
    by (auto dest: fire_writes)
qed (auto simp: doRead_def doWrite_def start_def quit_def abort_def calling_suspend
      split: if_splits option.splits continuation.splits frame.splits)

lemma torn_down:
  "pending_reads (fst c) = [] \<Longrightarrow> destroyed (snd c) \<Longrightarrow> calling (fst c) \<noteq> Some InPush \<Longrightarrow>
   run c t = Some (c', acts) \<Longrightarrow>
   filter is_delivery acts = [] \<and> engine_reads acts = []"
proof (induction t arbitrary: c acts)
  case Nil
  then show ?case by simp
next
  case (Cons e es)
  from run_Cons_Some [OF Cons.prems(4)] obtain s1 a1 a2 where
    ok: "base_allows (snd c) e"
    and st: "step (fst c) e = Some (s1, a1)"
    and rest: "run (s1, foldl observe (called e (snd c)) a1) es = Some (c', a2)"
    and acts: "acts = a1 @ a2"
    by blast
  have no_read: "\<And>n. e \<noteq> Call_read n"
    using ok Cons.prems(2) by auto
  have no_settle: "\<And>p r. e \<noteq> ReadSettled p r"
    using step_ReadSettled_pending st Cons.prems(1) by fastforce
  have no_throw: "\<And>y. e \<noteq> PushThrows y"
    using st Cons.prems(3) by (auto split: option.splits frame.splits)
  have p1: "pending_reads s1 = []"
    using step_pending_reads [OF st] Cons.prems(1) no_read by (cases e) auto
  have d1: "destroyed (foldl observe (called e (snd c)) a1)"
    using Cons.prems(2) by (simp add: destroyed_observe destroyed_called)
  have c1: "calling s1 \<noteq> Some InPush"
    using step_InPush [OF st] no_settle Cons.prems(3) by blast
  have "filter is_delivery a1 = []" "engine_reads a1 = []"
    using step_delivery [OF st] step_engine_reads [OF st] no_read no_settle no_throw
    by (cases e; simp)+
  with Cons.IH [OF _ _ _ rest] p1 d1 c1 acts show ?case
    by (simp add: engine_reads_append)
qed

text \<open>
  C7. When the engine resolves a read with a result that carries an error (whatever else
  the result carries), the stream answers with \<^verbatim>\<open>destroy\<close> of exactly that error and with
  nothing else: no \<^verbatim>\<open>push\<close> for that request and no new read request. In the rest of the
  run the stream issues no read request and neither pushes nor destroys again.
\<close>

theorem read_error_is_terminal:
  assumes "trace_of st (t1 @ ReadSettled p (Resolved r) # t2) = Some acts"
    and "err r = Some e"
  shows "\<exists>a1 a2. trace_of st t1 = Some a1 \<and> acts = a1 @ Destroy e # a2
           \<and> engine_reads a2 = [] \<and> filter is_delivery a2 = []"
proof -
  from assms(1) obtain c where r: "run (boot st) (t1 @ ReadSettled p (Resolved r) # t2) = Some (c, acts)"
    by (auto simp: trace_of_def)
  then obtain c1 a1 a' where r1: "run (boot st) t1 = Some (c1, a1)"
    and r': "run c1 (ReadSettled p (Resolved r) # t2) = Some (c, a')"
    and acts: "acts = a1 @ a'"
    unfolding run_append by (auto split: option.splits)
  from run_Cons_Some [OF r'] obtain s1 x a2 where
    ok: "base_allows (snd c1) (ReadSettled p (Resolved r))"
    and st: "step (fst c1) (ReadSettled p (Resolved r)) = Some (s1, x)"
    and rest: "run (s1, foldl observe (called (ReadSettled p (Resolved r)) (snd c1)) x) t2 = Some (c, a2)"
    and a': "a' = x @ a2"
    by blast
  have x: "x = [Destroy e]" and quiet: "calling s1 \<noteq> Some InPush"
    using st assms(2) by (auto split: option.splits continuation.splits)
  have inv: "rinv (fst c1, snd c1)"
    using rinv_run [OF rinv_boot r1] by simp
  have idle: "pending_reads s1 = []"
    using rinv_step [OF inv ok st] by simp
  have "filter is_delivery a2 = [] \<and> engine_reads a2 = []"
    using torn_down [OF _ _ _ rest] idle x quiet by simp
  with r1 acts a' x show ?thesis
    by (simp add: trace_of_def)
qed

theorem read_error_is_terminal_witness:
  "trace_of rs_stream
     ([Call_read 16384] @
      ReadSettled 0 (Resolved \<lparr>err = Some (Error ''overflow''), finished = None, buf = Some [1]\<rparr>)
      # [Call_quit None])
     = Some [EngineRead 16384, Destroy (Error ''overflow''), EngineQuit WAIT]
   \<and> err \<lparr>err = Some (Error ''overflow''), finished = None, buf = Some [1]\<rparr> = Some (Error ''overflow'')
   \<and> (\<exists>a1 a2. trace_of rs_stream [Call_read 16384] = Some a1
         \<and> [EngineRead 16384, Destroy (Error ''overflow''), EngineQuit WAIT]
             = a1 @ Destroy (Error ''overflow'') # a2
         \<and> engine_reads a2 = [] \<and> filter is_delivery a2 = [])"
proof -
  have t: "trace_of rs_stream
     ([Call_read 16384] @
      ReadSettled 0 (Resolved \<lparr>err = Some (Error ''overflow''), finished = None, buf = Some [1]\<rparr>)
      # [Call_quit None])
     = Some [EngineRead 16384, Destroy (Error ''overflow''), EngineQuit WAIT]"
    by (simp add: trace_of_def boot_def rs_stream_def
        doRead_def quit_def suspend_def resume_def)
  have e: "err \<lparr>err = Some (Error ''overflow''), finished = None, buf = Some [1]\<rparr>
     = Some (Error ''overflow'')"
    by simp
  from read_error_is_terminal [OF t e] t e show ?thesis
    by blast
qed


section \<open>Shutting down\<close>

lemma ids_ok_suspend: "ids_ok s \<Longrightarrow> ids_ok (suspend k s)"
  by (auto simp: ids_ok_def suspend_def)

lemma ids_ok_resume: "ids_ok s \<Longrightarrow> ids_ok (resume p s)"
  by (auto simp: ids_ok_def resume_def)

lemma ids_ok_calling: "ids_ok (s\<lparr>calling := f\<rparr>) = ids_ok s"
  by (simp add: ids_ok_def)

lemma this_suspend: "this (suspend k s) = this s"
  by (simp add: suspend_def)

lemma this_resume: "this (resume p s) = this s"
  by (simp add: resume_def)

lemma listener_run_keeps:
  "listener_run x l s = (s1, a1) \<Longrightarrow> (ids_ok s \<longrightarrow> ids_ok s1) \<and> this s1 = this s"
  by (cases l) (auto simp: quit_def ids_ok_suspend this_suspend)

lemma fire_keeps:
  "fire x ls s = (s', acts) \<Longrightarrow> (ids_ok s \<longrightarrow> ids_ok s') \<and> this s' = this s"
proof (induction ls arbitrary: s s' acts)
  case Nil
  then show ?case by simp
next
  case (Cons l ls)
  obtain s1 a1 where l1: "listener_run x l s = (s1, a1)"
    by (cases "listener_run x l s") auto
  obtain s2 a2 where f2: "fire x ls s1 = (s2, a2)"
    by (cases "fire x ls s1") auto
  from Cons.prems l1 f2 have "s' = s2" by simp
  with Cons.IH [OF f2] listener_run_keeps [OF l1] show ?case by simp
qed

lemma step_keeps:
  "step s e = Some (s', acts) \<Longrightarrow> (ids_ok s \<longrightarrow> ids_ok s') \<and> this s' = this s"
  by (cases e)
     (auto simp: doRead_def doWrite_def start_def quit_def abort_def ids_ok_suspend ids_ok_resume
        ids_ok_calling this_suspend this_resume
        dest: fire_keeps split: if_splits option.splits continuation.splits frame.splits)

lemma run_keeps:
  "run c t = Some (c', acts) \<Longrightarrow> (ids_ok (fst c) \<longrightarrow> ids_ok (fst c')) \<and> this (fst c') = this (fst c)"
proof (induction t arbitrary: c acts)
  case Nil
  then show ?case by simp
next
  case (Cons e es)
  from run_Cons_Some [OF Cons.prems] obtain s1 a1 a2 where
    st: "step (fst c) e = Some (s1, a1)"
    and rest: "run (s1, foldl observe (called e (snd c)) a1) es = Some (c', a2)"
    by blast
  from Cons.IH [OF rest] step_keeps [OF st] show ?case by simp
qed

lemma reachable_keeps:
  "run (boot st) t = Some ((s, v), acts) \<Longrightarrow> ids_ok s \<and> this s = st"
  using run_keeps [of "boot st" t "(s, v)" acts] by (simp add: boot_def ids_ok_def)

lemma map_of_suspend:
  "ids_ok s \<Longrightarrow>
   map_of (pending (suspend k s)) p = (if p = fresh s then Some k else map_of (pending s) p)"
proof -
  assume "ids_ok s"
  then have "fresh s \<notin> fst ` set (pending s)"
    by (auto simp: ids_ok_def)
  then have "map_of (pending s) (fresh s) = None"
    by (simp add: map_of_eq_None_iff)
  then show ?thesis
    by (auto simp: suspend_def map_add_def split: option.splits)
qed

lemma map_of_drop: "map_of (filter (\<lambda>q. fst q \<noteq> p) xs) q = (if q = p then None else map_of xs q)"
  by (induction xs) auto

lemma map_of_resume:
  "map_of (pending (resume p s)) q = (if q = p then None else map_of (pending s) q)"
  by (simp add: resume_def map_of_drop)

lemma run_engine_reads:
  "run c t = Some (c', acts) \<Longrightarrow> engine_reads acts = read_sizes t"
proof (induction t arbitrary: c acts)
  case Nil
  then show ?case by simp
next
  case (Cons e es)
  from run_Cons_Some [OF Cons.prems] obtain s1 a1 a2 where
    st: "step (fst c) e = Some (s1, a1)"
    and rest: "run (s1, foldl observe (called e (snd c)) a1) es = Some (c', a2)"
    and acts: "acts = a1 @ a2"
    by blast
  from Cons.IH [OF rest] step_engine_reads [OF st] acts show ?case
    by (cases e) (auto simp: engine_reads_append)
qed

lemma abort_then_settle:
  assumes ok: "ids_ok s" and out: "map_of (pending s) p = Some k"
  shows "\<exists>s2. run (s, v) [Call_abort cb, QuitSettled (fresh s) (Resolved ())]
                = Some ((s2, v), EngineQuit ABORT # call_if_function cb)
            \<and> map_of (pending s2) p = Some k"
proof -
  let ?s1 = "suspend (ThenAbort cb) s"
  let ?s2 = "(resume (fresh s) ?s1)\<lparr>calling := None\<rparr>"
  have p: "p \<noteq> fresh s"
    using ok out by (auto simp: ids_ok_def dest!: map_of_SomeD)
  have l1: "map_of (pending ?s1) (fresh s) = Some (ThenAbort cb)"
    using ok by (simp add: map_of_suspend)
  have keep: "map_of (pending ?s2) p = Some k"
    using ok out p by (simp add: map_of_resume map_of_suspend)
  have v: "foldl observe v (call_if_function cb) = v"
    by (cases cb) auto
  have "run (s, v) [Call_abort cb, QuitSettled (fresh s) (Resolved ())]
          = Some ((?s2, v), EngineQuit ABORT # call_if_function cb)"
    using l1 by (simp add: abort_def v)
  with keep show ?thesis by blast
qed

text \<open>
  C3, amended. In every reachable state with a read (or a write) outstanding, \<^verbatim>\<open>abort\<close>
  issues the quit request in mode \<^verbatim>\<open>ABORT\<close> at once, and its callback, when given, is
  invoked as soon as the engine resolves that quit, while the read (or write) is still
  outstanding. When the outstanding operation settles later, the stream handles its
  outcome like any other: \<^verbatim>\<open>doRead\<close> pushes a buffer result, \<^verbatim>\<open>doWrite\<close> invokes the
  write callback.
\<close>

theorem abort_callback_then_late_result:
  assumes "run (boot st) t = Some ((s, v), acts)"
  shows "(map_of (pending s) p = Some AwaitRead \<longrightarrow>
            map_option snd
              (run (s, v) [Call_abort cb, QuitSettled (fresh s) (Resolved ()), ReadSettled p r])
            = Some (EngineQuit ABORT # call_if_function cb @ doRead_resume r))
       \<and> (map_of (pending s) q = Some (AwaitWrite wcb) \<longrightarrow>
            map_option snd
              (run (s, v) [Call_abort cb, QuitSettled (fresh s) (Resolved ()), WriteSettled q w])
            = Some (EngineQuit ABORT # call_if_function cb @ doWrite_resume wcb w))"
proof (intro conjI impI)
  have ok: "ids_ok s"
    using reachable_keeps [OF assms] by simp
  {
    assume out: "map_of (pending s) p = Some AwaitRead"
    from abort_then_settle [OF ok out, of v cb] obtain s2 where
      r: "run (s, v) [Call_abort cb, QuitSettled (fresh s) (Resolved ())]
                = Some ((s2, v), EngineQuit ABORT # call_if_function cb)"
      and keep: "map_of (pending s2) p = Some AwaitRead"
      by blast
    have "run (s, v) ([Call_abort cb, QuitSettled (fresh s) (Resolved ())] @ [ReadSettled p r])
            = Some (((resume p s2)\<lparr>calling := doRead_calls r\<rparr>, foldl observe v (doRead_resume r)),
                    (EngineQuit ABORT # call_if_function cb) @ doRead_resume r)"
      unfolding run_append using r keep by simp
    then show "map_option snd
              (run (s, v) [Call_abort cb, QuitSettled (fresh s) (Resolved ()), ReadSettled p r])
            = Some (EngineQuit ABORT # call_if_function cb @ doRead_resume r)"
      by simp
  }
  {
    assume out: "map_of (pending s) q = Some (AwaitWrite wcb)"
    from abort_then_settle [OF ok out, of v cb] obtain s2 where
      r: "run (s, v) [Call_abort cb, QuitSettled (fresh s) (Resolved ())]
                = Some ((s2, v), EngineQuit ABORT # call_if_function cb)"
      and keep: "map_of (pending s2) q = Some (AwaitWrite wcb)"
      by blast
    have "run (s, v) ([Call_abort cb, QuitSettled (fresh s) (Resolved ())] @ [WriteSettled q w])
            = Some (((resume q s2)\<lparr>calling := doWrite_calls wcb w\<rparr>,
                     foldl observe v (doWrite_resume wcb w)),
                    (EngineQuit ABORT # call_if_function cb) @ doWrite_resume wcb w)"
      unfolding run_append using r keep by simp
    then show "map_option snd
              (run (s, v) [Call_abort cb, QuitSettled (fresh s) (Resolved ()), WriteSettled q w])
            = Some (EngineQuit ABORT # call_if_function cb @ doWrite_resume wcb w)"
      by simp
  }
qed

text \<open>
  C3, as stated, fails: a read is outstanding, \<^verbatim>\<open>abort\<close> is called and its callback is
  invoked when the engine's quit resolves; the read resolves afterwards with a buffer,
  and the stream pushes that buffer to the consumer.
\<close>

theorem abort_delivers_late_buffer:
  "trace_of rs_stream
     [Call_read 16384, Call_abort (Some 7), QuitSettled 1 (Resolved ()),
      ReadSettled 0 (Resolved r_bytes)]
     = Some [EngineRead 16384, EngineQuit ABORT, Callback 7, Push (Some [1, 2, 3])]
   \<and> pushes [EngineRead 16384, EngineQuit ABORT, Callback 7, Push (Some [1, 2, 3])]
       = [Some [1, 2, 3]]"
  by (simp add: trace_of_def boot_def rs_stream_def r_bytes_def
      doRead_def abort_def suspend_def resume_def)

theorem abort_callback_then_late_result_witness:
  "run (boot ds_stream) [Call_read 16384, Call_write [9] 5]
     = Some ((ds_runtime, ds_view), [EngineRead 16384, EngineWrite [9]])
   \<and> map_of (pending ds_runtime) 0 = Some AwaitRead
   \<and> map_of (pending ds_runtime) 1 = Some (AwaitWrite 5)
   \<and> map_option snd
        (run (ds_runtime, ds_view)
           [Call_abort (Some 7), QuitSettled 2 (Resolved ()), ReadSettled 0 (Resolved r_bytes)])
       = Some [EngineQuit ABORT, Callback 7, Push (Some [1, 2, 3])]
   \<and> map_option snd
        (run (ds_runtime, ds_view)
           [Call_abort (Some 7), QuitSettled 2 (Resolved ()), WriteSettled 1 (Resolved None)])
       = Some [EngineQuit ABORT, Callback 7, WriteCallback 5 None]"
proof -
  have r: "run (boot ds_stream) [Call_read 16384, Call_write [9] 5]
     = Some ((ds_runtime, ds_view), [EngineRead 16384, EngineWrite [9]])"
    by (simp add: boot_def ds_stream_def ds_runtime_def ds_view_def
        doRead_def doWrite_def suspend_def)
  have p: "map_of (pending ds_runtime) 0 = Some AwaitRead"
    "map_of (pending ds_runtime) 1 = Some (AwaitWrite 5)"
    "fresh ds_runtime = 2"
    by (simp_all add: ds_runtime_def)
  from abort_callback_then_late_result [OF r, of 0 "Some 7" "Resolved r_bytes" 1 5 "Resolved None"] p r
  show ?thesis
    by (simp add: r_bytes_def)
qed

text \<open>
  C4, amended. \<^verbatim>\<open>quit\<close> and \<^verbatim>\<open>abort\<close> issue one quit request each (mode \<^verbatim>\<open>WAIT\<close> and
  \<^verbatim>\<open>ABORT\<close>) and no read or write request. In every run, before and after them, the read
  and write requests issued are exactly those of the \<^verbatim>\<open>_read\<close> and \<^verbatim>\<open>_write\<close> calls the
  stream receives: the classes keep no state that would hold a request back.
\<close>

theorem requests_follow_calls:
  "(trace_of st t = Some acts \<longrightarrow>
      engine_reads acts = read_sizes t \<and> engine_writes acts = write_chunks t)
   \<and> map_option snd (step s (Call_quit cb)) = Some [EngineQuit WAIT]
   \<and> map_option snd (step s (Call_abort cb)) = Some [EngineQuit ABORT]"
  by (auto simp: trace_of_def quit_def abort_def dest: run_engine_reads run_engine_writes)

theorem requests_follow_calls_witness:
  "trace_of rs_stream
     [Call_read 16384, Call_quit None, ReadSettled 0 (Resolved r_bytes), Call_read 16384]
     = Some [EngineRead 16384, EngineQuit WAIT, Push (Some [1, 2, 3]), EngineRead 16384]
   \<and> engine_reads [EngineRead 16384, EngineQuit WAIT, Push (Some [1, 2, 3]), EngineRead 16384]
       = read_sizes [Call_read 16384, Call_quit None, ReadSettled 0 (Resolved r_bytes),
                     Call_read 16384]"
proof -
  have t: "trace_of rs_stream
     [Call_read 16384, Call_quit None, ReadSettled 0 (Resolved r_bytes), Call_read 16384]
     = Some [EngineRead 16384, EngineQuit WAIT, Push (Some [1, 2, 3]), EngineRead 16384]"
    by (simp add: trace_of_def boot_def rs_stream_def r_bytes_def
        doRead_def quit_def suspend_def resume_def)
  from requests_follow_calls [of rs_stream
      "[Call_read 16384, Call_quit None, ReadSettled 0 (Resolved r_bytes), Call_read 16384]"
      "[EngineRead 16384, EngineQuit WAIT, Push (Some [1, 2, 3]), EngineRead 16384]"] t
  show ?thesis by blast
qed

text \<open>
  C4, as stated, fails: after \<^verbatim>\<open>quit\<close> the outstanding read resolves with a buffer, the
  base class calls \<^verbatim>\<open>_read\<close> again, and the stream issues a read request; after
  \<^verbatim>\<open>abort\<close> a \<^verbatim>\<open>_write\<close> issues a write request.
\<close>

theorem requests_issued_after_quit:
  "trace_of rs_stream
     [Call_read 16384, Call_quit None, ReadSettled 0 (Resolved r_bytes), Call_read 16384]
     = Some [EngineRead 16384, EngineQuit WAIT, Push (Some [1, 2, 3]), EngineRead 16384]
   \<and> engine_reads
       (after_quit [EngineRead 16384, EngineQuit WAIT, Push (Some [1, 2, 3]), EngineRead 16384])
       = [16384]
   \<and> trace_of ws_stream [Call_abort None, Call_write [1] 10]
     = Some [EngineQuit ABORT, EngineWrite [1]]
   \<and> engine_writes (after_quit [EngineQuit ABORT, EngineWrite [1]]) = [[1]]"
  by (simp add: trace_of_def boot_def rs_stream_def ws_stream_def
      r_bytes_def doRead_def doWrite_def quit_def abort_def
      suspend_def resume_def)


section \<open>The listeners of the factory\<close>

lemma AudioIO_listeners:
  "snd (AudioIO create \<lparr>inOptions = inOpts, outOptions = Some outOpts\<rparr>) = Inr st \<Longrightarrow>
   listeners_for ''finish'' st = [QuitThenEmitFinished] \<and> listeners_for ''close'' st = [EmitClosed]"
  by (auto simp: AudioIO_def on_def listeners_for_def new_AudioWritableStream_def
      new_AudioDuplexStream_def base_constructor_def split: sum.splits option.splits if_splits)

lemma fire_no_finished: "fire x ls s = (s', acts) \<Longrightarrow> Emit ''finished'' \<notin> set acts"
proof (induction ls arbitrary: s s' acts)
  case Nil
  then show ?case by simp
next
  case (Cons l ls)
  then show ?case
    by (cases l) (auto simp: quit_def split: prod.splits)
qed

lemma call_if_function_no_finished: "Emit ''finished'' \<notin> set (call_if_function cb)"
  by (cases cb) auto

lemma finished_only_after_quit:
  "(\<exists>s' a. step s e = Some (s', a) \<and> Emit ''finished'' \<in> set a) =
   (\<exists>p cb. e = QuitSettled p (Resolved ()) \<and> map_of (pending s) p = Some (AwaitQuit cb True))"
proof (cases e)
  case (QuitSettled p r)
  show ?thesis
  proof (cases "map_of (pending s) p")
    case None
    with QuitSettled show ?thesis by simp
  next
    case (Some k)
    with QuitSettled show ?thesis
      by (cases k; cases r) (auto simp: call_if_function_no_finished)
  qed
next
  case (ReadSettled p r)
  then show ?thesis
    by (cases r) (auto simp: doRead_catch_def split: option.splits continuation.splits)
next
  case (WriteSettled p r)
  then show ?thesis
    by (cases r) (auto simp: doWrite_catch_def split: option.splits continuation.splits)
next
  case (Fire name x)
  then show ?thesis
    by (auto dest: fire_no_finished)
next
  case (PushThrows y)
  then show ?thesis
    by (auto simp: doRead_catch_def split: option.splits frame.splits)
next
  case (CallbackThrows y)
  then show ?thesis
    by (auto simp: doWrite_catch_def split: option.splits frame.splits)
qed (auto simp: doRead_def doWrite_def start_def quit_def abort_def)

text \<open>
  C9. For a stream that the factory built with an output configuration (writable or
  duplex), in every reachable state: when \<^verbatim>\<open>'finish'\<close> fires, the stream issues the quit
  request of \<^verbatim>\<open>quit()\<close> (mode \<^verbatim>\<open>WAIT\<close>) and emits nothing; \<^verbatim>\<open>'finished'\<close> is emitted when
  the engine resolves that quit, and not when it rejects it. An event makes the stream
  emit \<^verbatim>\<open>'finished'\<close> exactly when it resolves a quit that the \<^verbatim>\<open>finish\<close> handler waits
  for. When \<^verbatim>\<open>'close'\<close> fires, the stream emits \<^verbatim>\<open>'closed'\<close>.
\<close>

theorem finish_quits_then_emits_finished:
  assumes "snd (AudioIO create \<lparr>inOptions = inOpts, outOptions = Some outOpts\<rparr>) = Inr st"
    and "run (boot st) t = Some ((s, v), acts)"
  shows "map_option snd (step s (Fire ''finish'' x)) = Some [EngineQuit WAIT]
       \<and> map_option snd (run (s, v) [Fire ''finish'' x, QuitSettled (fresh s) (Resolved ())])
           = Some [EngineQuit WAIT, Emit ''finished'']
       \<and> map_option snd (run (s, v) [Fire ''finish'' x, QuitSettled (fresh s) (Rejected y)])
           = Some [EngineQuit WAIT, Rejects y]
       \<and> ((\<exists>s' a. step s e = Some (s', a) \<and> Emit ''finished'' \<in> set a) =
          (\<exists>p cb. e = QuitSettled p (Resolved ()) \<and> map_of (pending s) p = Some (AwaitQuit cb True)))
       \<and> map_option snd (step s (Fire ''close'' x)) = Some [Emit ''closed'']"
proof -
  have ok: "ids_ok s" and same: "this s = st"
    using reachable_keeps [OF assms(2)] by simp_all
  have ls: "listeners_for ''finish'' (this s) = [QuitThenEmitFinished]"
    "listeners_for ''close'' (this s) = [EmitClosed]"
    using AudioIO_listeners [OF assms(1)] same by simp_all
  have look: "map_of (pending (suspend (AwaitQuit None True) s)) (fresh s)
     = Some (AwaitQuit None True)"
    using ok by (simp add: map_of_suspend)
  have "map_option snd (step s (Fire ''finish'' x)) = Some [EngineQuit WAIT]"
    using ls by (simp add: quit_def)
  moreover have "map_option snd (run (s, v) [Fire ''finish'' x, QuitSettled (fresh s) (Resolved ())])
           = Some [EngineQuit WAIT, Emit ''finished'']"
    using ls look by (simp add: quit_def)
  moreover have "map_option snd (run (s, v) [Fire ''finish'' x, QuitSettled (fresh s) (Rejected y)])
           = Some [EngineQuit WAIT, Rejects y]"
    using ls look by (simp add: quit_def)
  moreover have "map_option snd (step s (Fire ''close'' x)) = Some [Emit ''closed'']"
    using ls by simp
  ultimately show ?thesis
    using finished_only_after_quit [of s e] by blast
qed

theorem finish_quits_then_emits_finished_witness:
  "snd (AudioIO create_ok \<lparr>inOptions = None, outOptions = Some no_options\<rparr>) = Inr ws_built
   \<and> run (boot ws_built) [] = Some ((ws_runtime, idle_view), [])
   \<and> map_option snd (step ws_runtime (Fire ''finish'' None)) = Some [EngineQuit WAIT]
   \<and> map_option snd
        (run (ws_runtime, idle_view) [Fire ''finish'' None, QuitSettled 0 (Resolved ())])
       = Some [EngineQuit WAIT, Emit ''finished'']
   \<and> map_option snd (step ws_runtime (Fire ''close'' None)) = Some [Emit ''closed'']"
proof -
  have b: "snd (AudioIO create_ok \<lparr>inOptions = None, outOptions = Some no_options\<rparr>) = Inr ws_built"
    by (simp add: AudioIO_def create_ok_def no_options_def new_AudioWritableStream_def
        base_constructor_def ws_built_def ws_stream_def on_def)
  have r: "run (boot ws_built) [] = Some ((ws_runtime, idle_view), [])"
    by (simp add: boot_def ws_runtime_def idle_view_def)
  have f: "fresh ws_runtime = 0"
    by (simp add: ws_runtime_def)
  from finish_quits_then_emits_finished [OF b r, of None] b r f show ?thesis
    by simp
qed

end
